theory Spec2Isabelle
  imports Complex_Main "HOL-Library.Word"
begin

unbundle bit_operations_syntax

section \<open>Bytes\<close>

text \<open>
  A Python \<^verbatim>\<open>bytes\<close> or \<^verbatim>\<open>bytearray\<close> value is a list of 8-bit words; iterating over
  it or indexing it gives the unsigned value \<open>uint b\<close>, a Python integer (\<open>int\<close>).
\<close>

type_synonym byte = "8 word"

section \<open>CRCCalculator\<close>

text \<open>
  The body of \<^verbatim>\<open>for _ in range(8)\<close> in \<^verbatim>\<open>calculate_ccitt_crc16\<close> and in
  \<^verbatim>\<open>calculate_crc16_xmodem\<close> (the two loops are the same text):
  \<^verbatim>\<open>if crc & 0x8000: crc = (crc << 1) ^ 0x1021 else: crc = crc << 1; crc &= 0xFFFF\<close>.
\<close>

definition shift_left_round :: "int \<Rightarrow> int" where
  "shift_left_round crc =
     (if crc AND 0x8000 \<noteq> 0 then push_bit 1 crc XOR 0x1021 else push_bit 1 crc) AND 0xFFFF"

definition calculate_ccitt_crc16 :: "byte list \<Rightarrow> int" where
  "calculate_ccitt_crc16 data =
     fold (\<lambda>byte crc. (shift_left_round ^^ 8) (crc XOR push_bit 8 (uint byte))) data 0xFFFF"

definition calculate_crc16_xmodem :: "byte list \<Rightarrow> int" where
  "calculate_crc16_xmodem data =
     fold (\<lambda>byte crc. (shift_left_round ^^ 8) (crc XOR push_bit 8 (uint byte))) data 0x0000"

text \<open>
  The inner loop body of \<^verbatim>\<open>calculate_modbus_crc16\<close>; the source applies no mask here.
\<close>

definition shift_right_round :: "int \<Rightarrow> int" where
  "shift_right_round crc =
     (if crc AND 0x0001 \<noteq> 0 then drop_bit 1 crc XOR 0xA001 else drop_bit 1 crc)"

definition calculate_modbus_crc16 :: "byte list \<Rightarrow> int" where
  "calculate_modbus_crc16 data =
     fold (\<lambda>byte crc. (shift_right_round ^^ 8) (crc XOR uint byte)) data 0xFFFF"

definition calculate_sum_check :: "byte list \<Rightarrow> int" where
  "calculate_sum_check data = sum_list (map uint data) AND 0xFF"

definition calculate_xor_check :: "byte list \<Rightarrow> int" where
  "calculate_xor_check data = fold (\<lambda>byte result. result XOR uint byte) data 0"

section \<open>Python slices, \<^verbatim>\<open>find\<close> and \<^verbatim>\<open>struct.unpack\<close>\<close>

text \<open>
  \<^verbatim>\<open>xs[i:]\<close> for a Python integer \<open>i\<close>: a negative \<open>i\<close> counts from the end, and
  \<^verbatim>\<open>xs[-0:]\<close> is \<^verbatim>\<open>xs[0:]\<close>, the whole list. A start before the beginning is clipped.
\<close>

definition slice_from :: "int \<Rightarrow> 'a list \<Rightarrow> 'a list" where
  "slice_from i xs = (if i < 0 then drop (nat (int (length xs) + i)) xs else drop (nat i) xs)"

text \<open>
  \<^verbatim>\<open>buf.find(sub)\<close>: the lowest index at which \<open>sub\<close> occurs in \<open>buf\<close>; Python's
  \<open>-1\<close> is \<open>None\<close>.
\<close>

fun find_bytes :: "byte list \<Rightarrow> byte list \<Rightarrow> nat option" where
  "find_bytes [] sub = (if sub = [] then Some 0 else None)"
| "find_bytes (b # bs) sub =
     (if take (length sub) (b # bs) = sub then Some 0 else map_option Suc (find_bytes bs sub))"

text \<open>
  \<^verbatim>\<open>struct.unpack\<close> of one integer: \<open>None\<close> is \<^verbatim>\<open>struct.error\<close>, raised when the
  buffer does not have exactly the size of the format. \<^verbatim>\<open><\<close> is little-endian,
  \<^verbatim>\<open>>\<close> big-endian; the signed formats read two's complement.
\<close>

datatype endian = LE | BE

fun le_value :: "byte list \<Rightarrow> int" where
  "le_value [] = 0"
| "le_value (b # bs) = uint b + 256 * le_value bs"

definition unpack_uint :: "endian \<Rightarrow> nat \<Rightarrow> byte list \<Rightarrow> int option" where
  "unpack_uint e n bs =
     (if length bs \<noteq> n then None
      else Some (case e of LE \<Rightarrow> le_value bs | BE \<Rightarrow> le_value (rev bs)))"

definition unpack_sint :: "endian \<Rightarrow> nat \<Rightarrow> byte list \<Rightarrow> int option" where
  "unpack_sint e n bs =
     map_option (\<lambda>v. if v \<ge> 2 ^ (8 * n - 1) then v - 2 ^ (8 * n) else v) (unpack_uint e n bs)"

section \<open>DataParser: the fixed 38-byte protocol\<close>

definition FRAME_LENGTH :: nat where "FRAME_LENGTH = 38"
definition FRAME_HEADER :: "byte list" where "FRAME_HEADER = [0xA8, 0xA8]"
definition FRAME_TAIL :: "byte list" where "FRAME_TAIL = [0xAA, 0xAA]"

text \<open>
  One entry of \<^verbatim>\<open>results\<close>. The dictionary also holds \<^verbatim>\<open>datetime.now()\<close>, and it
  stores \<^verbatim>\<open>co_avg_raw / 600.0\<close> and \<^verbatim>\<open>temp_raw / 10.0\<close> as floats; the record keeps the
  integers that were unpacked.
\<close>

record default_result =
  co_concentration :: int
  co_avg_raw :: int
  temp_raw :: int
  default_raw_frame :: "byte list"

definition add_data_default :: "byte list \<Rightarrow> byte list \<Rightarrow> byte list" where
  "add_data_default buffer data = buffer @ data"

text \<open>
  The body of \<^verbatim>\<open>try: ... except\<close> in \<^verbatim>\<open>DataParser.parse\<close>: a failing
  \<^verbatim>\<open>struct.unpack\<close> is printed and nothing is appended.
\<close>

definition append_default_result :: "default_result list \<Rightarrow> byte list \<Rightarrow> default_result list" where
  "append_default_result results frame =
     (case unpack_uint LE 2 (take 2 (drop 2 frame)) of
        None \<Rightarrow> results
      | Some co \<Rightarrow>
         (case unpack_uint LE 4 (take 4 (drop 4 frame)) of
            None \<Rightarrow> results
          | Some avg \<Rightarrow>
             (case unpack_sint LE 2 (take 2 (drop 8 frame)) of
                None \<Rightarrow> results
              | Some t \<Rightarrow>
                 results @ [\<lparr>co_concentration = co, co_avg_raw = avg, temp_raw = t,
                             default_raw_frame = frame\<rparr>])))"

function parse_default_loop ::
  "byte list \<Rightarrow> default_result list \<Rightarrow> default_result list \<times> byte list" where
  "parse_default_loop buffer results =
     (if \<not> length buffer \<ge> FRAME_LENGTH then (results, buffer)
      else
        (case find_bytes buffer FRAME_HEADER of
           None \<Rightarrow> (results, [])
         | Some header_index \<Rightarrow>
            (let buffer1 = (if header_index > 0 then drop header_index buffer else buffer) in
             if length buffer1 < FRAME_LENGTH then (results, buffer1)
             else
               (let frame = take FRAME_LENGTH buffer1 in
                if take 2 (drop 36 frame) \<noteq> FRAME_TAIL
                then parse_default_loop (drop 2 buffer1) results
                else parse_default_loop (drop FRAME_LENGTH buffer1)
                       (append_default_result results frame)))))"
  by pat_completeness auto
termination
  by (relation "measure (\<lambda>(buffer, results). length buffer)")
     (auto simp: FRAME_LENGTH_def split: if_splits)

definition parse_default :: "byte list \<Rightarrow> default_result list \<times> byte list" where
  "parse_default buffer = parse_default_loop buffer []"

text \<open>What the invariant of emitted frames asks of a frame of the default parser.\<close>

definition default_frame_ok :: "byte list \<Rightarrow> bool" where
  "default_frame_ok f \<longleftrightarrow> length f = 38 \<and> take 2 f = [0xA8, 0xA8] \<and> drop 36 f = [0xAA, 0xAA]"

section \<open>GenericProtocolParser\<close>

text \<open>
  \<^verbatim>\<open>crc_type\<close> is a string of the configuration, one of the six entries of the
  dialog's combo box: \<open>Crc_none\<close> is the first entry (no check), \<open>Sum_check\<close> the
  fifth (the additive checksum), \<open>Xor_check\<close> the sixth (the XOR checksum); the three
  CRC16 names are spelled as in the source. \<open>Crc_other\<close> is any other string.
\<close>

datatype crc_type = Crc_none | CRC16_XMODEM | CRC16_CCITT | CRC16_MODBUS | Sum_check | Xor_check
  | Crc_other

record protocol_config =
  name :: string
  header :: "byte list"
  tail :: "byte list"
  length_cfg :: nat
  crc_type :: crc_type
  enabled :: bool

record generic_parser = protocol_config +
  buffer :: "byte list"

definition GenericProtocolParser :: "protocol_config \<Rightarrow> generic_parser" where
  "GenericProtocolParser protocol_config =
     \<lparr>name = name protocol_config, header = header protocol_config,
      tail = tail protocol_config, length_cfg = length_cfg protocol_config,
      crc_type = crc_type protocol_config, enabled = enabled protocol_config, buffer = []\<rparr>"

record result =
  protocol_name :: string
  raw_frame :: "byte list"

definition add_data :: "generic_parser \<Rightarrow> byte list \<Rightarrow> generic_parser" where
  "add_data p data =
     (let buffer1 = buffer p @ data in
      if length buffer1 > 10240 then p\<lparr>buffer := slice_from (- 5120) buffer1\<rparr>
      else p\<lparr>buffer := buffer1\<rparr>)"

text \<open>
  \<^verbatim>\<open>_verify_crc\<close>. \<^verbatim>\<open>frame[:-2]\<close> is \<open>take (length frame - 2) frame\<close> and
  \<^verbatim>\<open>frame[-2:]\<close> is \<open>slice_from (- 2) frame\<close>. After the length guard the slice has two
  bytes, so \<^verbatim>\<open>struct.unpack\<close> cannot raise; the model gives that branch \<open>False\<close>.
\<close>

definition verify_crc :: "crc_type \<Rightarrow> byte list \<Rightarrow> bool" where
  "verify_crc ct frame =
     (if ct = Crc_none then True
      else if ct \<in> {CRC16_XMODEM, CRC16_CCITT, CRC16_MODBUS} then
        (if length frame < 3 then False
         else
           (let data = take (length frame - 2) frame in
            if ct = CRC16_MODBUS then
              (case unpack_uint LE 2 (slice_from (- 2) frame) of
                 None \<Rightarrow> False
               | Some crc_received \<Rightarrow> crc_received = calculate_modbus_crc16 data)
            else if ct = CRC16_XMODEM then
              (case unpack_uint LE 2 (slice_from (- 2) frame) of
                 None \<Rightarrow> False
               | Some crc_received \<Rightarrow> crc_received = calculate_crc16_xmodem data)
            else
              (case unpack_uint BE 2 (slice_from (- 2) frame) of
                 None \<Rightarrow> False
               | Some crc_received \<Rightarrow> crc_received = calculate_ccitt_crc16 data)))
      else if ct \<in> {Sum_check, Xor_check} then
        (if length frame < 2 then False
         else
           (let data = take (length frame - 1) frame;
                check_received = uint (last frame) in
            if ct = Sum_check then check_received = calculate_sum_check data
            else check_received = calculate_xor_check data))
      else True)"

text \<open>
  The \<^verbatim>\<open>while\<close> loop of \<^verbatim>\<open>GenericProtocolParser.parse\<close>. It need not end (a frame
  length of 0 can repeat the same buffer for ever), so it is a partial function: \<open>None\<close>
  is a loop that never returns. \<open>Inl\<close> in the header search is the \<^verbatim>\<open>break\<close>.
\<close>

partial_function (option) parse_loop ::
  "generic_parser \<Rightarrow> result list \<Rightarrow> (result list \<times> generic_parser) option" where
  "parse_loop p results =
     (if \<not> length (buffer p) \<ge> length_cfg p then Some (results, p)
      else
        (case
           (if length (header p) > 0 then
              (case find_bytes (buffer p) (header p) of
                 None \<Rightarrow>
                   Inl (if length (buffer p) > length (header p)
                        then p\<lparr>buffer := slice_from (- (int (length (header p)) - 1)) (buffer p)\<rparr>
                        else p)
               | Some header_index \<Rightarrow>
                   Inr (if header_index > 0 then p\<lparr>buffer := drop header_index (buffer p)\<rparr>
                        else p))
            else Inr p)
         of
           Inl p1 \<Rightarrow> Some (results, p1)
         | Inr p1 \<Rightarrow>
            (if length (buffer p1) < length_cfg p1 then Some (results, p1)
             else
               (let frame = take (length_cfg p1) (buffer p1) in
                if length (tail p1) > 0 \<and>
                   slice_from (int (length_cfg p1) - int (length (tail p1))) frame \<noteq> tail p1
                then parse_loop (p1\<lparr>buffer := drop (max 1 (length (header p1))) (buffer p1)\<rparr>)
                       results
                else if \<not> verify_crc (crc_type p1) frame
                then parse_loop (p1\<lparr>buffer := drop (max 1 (length (header p1))) (buffer p1)\<rparr>)
                       results
                else parse_loop (p1\<lparr>buffer := drop (length_cfg p1) (buffer p1)\<rparr>)
                       (results @ [\<lparr>protocol_name = name p1, raw_frame = frame\<rparr>])))))"

declare parse_loop.simps [code]

definition parse :: "generic_parser \<Rightarrow> (result list \<times> generic_parser) option" where
  "parse p = (if \<not> enabled p then Some ([], p) else parse_loop p [])"

text \<open>
  One pass through the body of the loop, for the proofs: the loop ends (\<open>Break\<close>, at the
  loop test, at the \<^verbatim>\<open>break\<close> of the header search or at the length check), drops
  bytes and goes on (\<open>Skip\<close>), or appends a result and goes on (\<open>Emit\<close>).
  \<open>parse_loop_pass\<close> below shows that \<open>parse_loop\<close> is the iteration of this pass.
\<close>

datatype pass_result = Break generic_parser | Skip generic_parser | Emit result generic_parser

definition parse_pass :: "generic_parser \<Rightarrow> pass_result" where
  "parse_pass p =
     (if \<not> length (buffer p) \<ge> length_cfg p then Break p
      else
        (case
           (if length (header p) > 0 then
              (case find_bytes (buffer p) (header p) of
                 None \<Rightarrow>
                   Inl (if length (buffer p) > length (header p)
                        then p\<lparr>buffer := slice_from (- (int (length (header p)) - 1)) (buffer p)\<rparr>
                        else p)
               | Some header_index \<Rightarrow>
                   Inr (if header_index > 0 then p\<lparr>buffer := drop header_index (buffer p)\<rparr>
                        else p))
            else Inr p)
         of
           Inl p1 \<Rightarrow> Break p1
         | Inr p1 \<Rightarrow>
            (if length (buffer p1) < length_cfg p1 then Break p1
             else
               (let frame = take (length_cfg p1) (buffer p1) in
                if length (tail p1) > 0 \<and>
                   slice_from (int (length_cfg p1) - int (length (tail p1))) frame \<noteq> tail p1
                then Skip (p1\<lparr>buffer := drop (max 1 (length (header p1))) (buffer p1)\<rparr>)
                else if \<not> verify_crc (crc_type p1) frame
                then Skip (p1\<lparr>buffer := drop (max 1 (length (header p1))) (buffer p1)\<rparr>)
                else Emit \<lparr>protocol_name = name p1, raw_frame = frame\<rparr>
                       (p1\<lparr>buffer := drop (length_cfg p1) (buffer p1)\<rparr>)))))"

text \<open>
  What the invariant of emitted frames asks of one result: the parser's name, the frame
  length, the header at the front (for a header that fits into the frame), the tail at
  the end, and a checksum that verifies.
\<close>

definition frame_ok :: "generic_parser \<Rightarrow> result \<Rightarrow> bool" where
  "frame_ok p r \<longleftrightarrow>
     protocol_name r = name p \<and>
     length (raw_frame r) = length_cfg p \<and>
     (length (header p) \<le> length_cfg p \<longrightarrow> take (length (header p)) (raw_frame r) = header p) \<and>
     drop (length_cfg p - length (tail p)) (raw_frame r) = tail p \<and>
     verify_crc (crc_type p) (raw_frame r)"

text \<open>
  The specification's \<open>feed\<close>: \<^verbatim>\<open>add_data\<close> followed by \<^verbatim>\<open>parse\<close>, as
  \<^verbatim>\<open>on_data_received\<close> calls them for every chunk; \<open>feed_chunks\<close> feeds a sequence of
  chunks and collects what each call emits.
\<close>

definition feed :: "generic_parser \<Rightarrow> byte list \<Rightarrow> (result list \<times> generic_parser) option" where
  "feed p data = parse (add_data p data)"

fun feed_chunks :: "generic_parser \<Rightarrow> byte list list \<Rightarrow> (result list \<times> generic_parser) option" where
  "feed_chunks p [] = Some ([], p)"
| "feed_chunks p (c # cs) =
     (case feed p c of
        None \<Rightarrow> None
      | Some (rs, p1) \<Rightarrow>
         (case feed_chunks p1 cs of
            None \<Rightarrow> None
          | Some (rs1, p2) \<Rightarrow> Some (rs @ rs1, p2)))"

text \<open>
  A valid frame of a protocol, in the specification's words: exactly frame-length bytes,
  the header at the front, the tail at the end, and a checksum that verifies.
\<close>

definition valid_frame :: "generic_parser \<Rightarrow> byte list \<Rightarrow> bool" where
  "valid_frame p f \<longleftrightarrow>
     length f = length_cfg p \<and>
     take (length (header p)) f = header p \<and>
     drop (length f - length (tail p)) f = tail p \<and>
     verify_crc (crc_type p) f"

section \<open>SerialMonitor: dispatching a received chunk\<close>

text \<open>
  The part of the window's state that \<^verbatim>\<open>on_data_received\<close> uses after the display
  buffer: the protocol configurations, the \<^verbatim>\<open>DataParser\<close> (its buffer) and the list of
  \<^verbatim>\<open>GenericProtocolParser\<close> objects.
\<close>

record serial_monitor =
  protocol_configs :: "protocol_config list"
  parser :: "byte list"
  protocol_parsers :: "generic_parser list"

definition init_protocol_parsers :: "serial_monitor \<Rightarrow> serial_monitor" where
  "init_protocol_parsers m =
     m\<lparr>protocol_parsers :=
         map GenericProtocolParser (filter enabled (protocol_configs m))\<rparr>"

text \<open>The loop that computes \<^verbatim>\<open>use_default_parser\<close>, with its \<^verbatim>\<open>break\<close>.\<close>

fun use_default_parser :: "protocol_config list \<Rightarrow> bool" where
  "use_default_parser [] = True"
| "use_default_parser (protocol_config # rest) =
     (if enabled protocol_config \<and> header protocol_config = [0xA8, 0xA8] then False
      else use_default_parser rest)"

text \<open>\<^verbatim>\<open>for parser in self.protocol_parsers\<close>: each parser is fed and parsed in turn.\<close>

fun run_protocol_parsers ::
  "generic_parser list \<Rightarrow> byte list \<Rightarrow> (result list \<times> generic_parser list) option" where
  "run_protocol_parsers [] data = Some ([], [])"
| "run_protocol_parsers (p # ps) data =
     (case parse (add_data p data) of
        None \<Rightarrow> None
      | Some (protocol_results, p1) \<Rightarrow>
         (case run_protocol_parsers ps data of
            None \<Rightarrow> None
          | Some (rs, ps1) \<Rightarrow> Some (protocol_results @ rs, p1 # ps1)))"

text \<open>
  What \<^verbatim>\<open>on_data_received\<close> hands to \<^verbatim>\<open>parse_custom_display_data\<close>: the raw frame and
  the protocol name, \<open>None\<close> for the default protocol. The model starts where the source
  computes \<^verbatim>\<open>use_default_parser\<close>; the display buffer before it is not modelled.
\<close>

type_synonym dispatched = "string option \<times> byte list"

definition on_data_received ::
  "serial_monitor \<Rightarrow> byte list \<Rightarrow> (dispatched list \<times> serial_monitor) option" where
  "on_data_received m data =
     (let (default_out, parser1) =
            (if use_default_parser (protocol_configs m) then
               (let (results, buffer1) = parse_default (add_data_default (parser m) data)
                in (map (\<lambda>r. (None, default_raw_frame r)) results, buffer1))
             else ([], parser m))
      in
        (case run_protocol_parsers (protocol_parsers m) data of
           None \<Rightarrow> None
         | Some (rs, ps1) \<Rightarrow>
            Some (default_out @ map (\<lambda>r. (Some (protocol_name r), raw_frame r)) rs,
                  m\<lparr>parser := parser1, protocol_parsers := ps1\<rparr>)))"

section \<open>PlotCanvas.parse_value_from_frame\<close>

text \<open>
  Python's float arithmetic and the IEEE decoding of \<^verbatim>\<open>struct.unpack\<close> are not code of
  the repository: they are parameters of the model. \<open>float_truediv\<close> is \<open>None\<close> where
  Python raises \<^verbatim>\<open>ZeroDivisionError\<close>. The coefficient, divisor and offset of a
  configuration are floats (they come from \<^verbatim>\<open>QDoubleSpinBox\<close>).
\<close>

record 'f float_ops =
  float_of_int :: "int \<Rightarrow> 'f"
  float_mul :: "'f \<Rightarrow> 'f \<Rightarrow> 'f"
  float_truediv :: "'f \<Rightarrow> 'f \<Rightarrow> 'f option"
  float_add :: "'f \<Rightarrow> 'f \<Rightarrow> 'f"
  decode_float :: "endian \<Rightarrow> byte list \<Rightarrow> 'f"
  decode_double :: "endian \<Rightarrow> byte list \<Rightarrow> 'f"

record 'f field_config =
  start_byte :: nat
  byte_count :: nat
  data_type :: string
  bit_mode :: bool
  bit_index :: nat
  coefficient :: 'f
  divisor :: 'f
  offset :: 'f

text \<open>
  The \<^verbatim>\<open>if dtype == ... elif ...\<close> chain. \<open>None\<close> is the \<^verbatim>\<open>return None\<close> of the last
  branch and every exception that the enclosing \<^verbatim>\<open>try\<close> catches: \<^verbatim>\<open>IndexError\<close> on
  \<^verbatim>\<open>data_bytes[0]\<close> and \<^verbatim>\<open>struct.error\<close> on a slice shorter than the format. An
  integer is converted to a float when it is multiplied by the coefficient.
\<close>

definition unpack_float :: "'f float_ops \<Rightarrow> endian \<Rightarrow> byte list \<Rightarrow> 'f option" where
  "unpack_float fl e bs = (if length bs \<noteq> 4 then None else Some (decode_float fl e bs))"

definition unpack_double :: "'f float_ops \<Rightarrow> endian \<Rightarrow> byte list \<Rightarrow> 'f option" where
  "unpack_double fl e bs = (if length bs \<noteq> 8 then None else Some (decode_double fl e bs))"

definition decode_value :: "'f float_ops \<Rightarrow> string \<Rightarrow> byte list \<Rightarrow> 'f option" where
  "decode_value fl dtype data_bytes =
     (if dtype = ''uint8'' then
        (case data_bytes of [] \<Rightarrow> None | b # _ \<Rightarrow> Some (float_of_int fl (uint b)))
      else if dtype = ''int8'' then
        map_option (float_of_int fl) (unpack_sint LE 1 (take 1 data_bytes))
      else if dtype = ''uint16 (LE)'' then
        map_option (float_of_int fl) (unpack_uint LE 2 (take 2 data_bytes))
      else if dtype = ''uint16 (BE)'' then
        map_option (float_of_int fl) (unpack_uint BE 2 (take 2 data_bytes))
      else if dtype = ''int16 (LE)'' then
        map_option (float_of_int fl) (unpack_sint LE 2 (take 2 data_bytes))
      else if dtype = ''int16 (BE)'' then
        map_option (float_of_int fl) (unpack_sint BE 2 (take 2 data_bytes))
      else if dtype = ''uint32 (LE)'' then
        map_option (float_of_int fl) (unpack_uint LE 4 (take 4 data_bytes))
      else if dtype = ''uint32 (BE)'' then
        map_option (float_of_int fl) (unpack_uint BE 4 (take 4 data_bytes))
      else if dtype = ''int32 (LE)'' then
        map_option (float_of_int fl) (unpack_sint LE 4 (take 4 data_bytes))
      else if dtype = ''int32 (BE)'' then
        map_option (float_of_int fl) (unpack_sint BE 4 (take 4 data_bytes))
      else if dtype = ''float (LE)'' then unpack_float fl LE (take 4 data_bytes)
      else if dtype = ''float (BE)'' then unpack_float fl BE (take 4 data_bytes)
      else if dtype = ''double (LE)'' then unpack_double fl LE (take 8 data_bytes)
      else if dtype = ''double (BE)'' then unpack_double fl BE (take 8 data_bytes)
      else None)"

definition parse_value_from_frame ::
  "'f float_ops \<Rightarrow> byte list \<Rightarrow> 'f field_config \<Rightarrow> 'f option" where
  "parse_value_from_frame fl frame config =
     (let start = start_byte config; count = byte_count config; dtype = data_type config in
      if start + count > length frame then None
      else if bit_mode config then
        (if start \<ge> length frame then None
         else Some (float_of_int fl
                      (drop_bit (bit_index config) (uint (frame ! start)) AND 0x01)))
      else
        (let data_bytes = take count (drop start frame) in
         case decode_value fl dtype data_bytes of
           None \<Rightarrow> None
         | Some v \<Rightarrow>
            (case float_truediv fl (float_mul fl v (coefficient config)) (divisor config) of
               None \<Rightarrow> None
             | Some q \<Rightarrow> Some (float_add fl q (offset config)))))"

text \<open>
  The integer types of the chain, for stating results: name, size in bytes, signedness and
  byte order.
\<close>

definition int_types :: "(string \<times> nat \<times> bool \<times> endian) list" where
  "int_types =
     [(''uint8'', 1, False, LE), (''int8'', 1, True, LE),
      (''uint16 (LE)'', 2, False, LE), (''uint16 (BE)'', 2, False, BE),
      (''int16 (LE)'', 2, True, LE), (''int16 (BE)'', 2, True, BE),
      (''uint32 (LE)'', 4, False, LE), (''uint32 (BE)'', 4, False, BE),
      (''int32 (LE)'', 4, True, LE), (''int32 (BE)'', 4, True, BE)]"

definition float_types :: "(string \<times> nat \<times> endian) list" where
  "float_types =
     [(''float (LE)'', 4, LE), (''float (BE)'', 4, BE),
      (''double (LE)'', 8, LE), (''double (BE)'', 8, BE)]"

text \<open>
  The value of \<open>n\<close> bytes read in the given byte order, unsigned or as two's complement:
  what the specification calls decoding with the declared type and endianness.
\<close>

definition raw_value :: "bool \<Rightarrow> endian \<Rightarrow> byte list \<Rightarrow> int" where
  "raw_value is_signed e bs =
     (let u = (case e of LE \<Rightarrow> le_value bs | BE \<Rightarrow> le_value (rev bs)) in
      if is_signed \<and> u \<ge> 2 ^ (8 * length bs - 1) then u - 2 ^ (8 * length bs) else u)"

text \<open>An instance of the float operations for running the model: exact rationals.\<close>

definition exact_ops :: "rat float_ops" where
  "exact_ops =
     \<lparr>float_of_int = of_int, float_mul = (*),
      float_truediv = (\<lambda>a b. if b = 0 then None else Some (a / b)),
      float_add = (+), decode_float = (\<lambda>e bs. 0), decode_double = (\<lambda>e bs. 0)\<rparr>"

section \<open>SerialMonitor: connection recovery\<close>

text \<open>
  Times are \<^verbatim>\<open>datetime\<close> values, counted in microseconds, their resolution. The source
  compares \<^verbatim>\<open>total_seconds()\<close> of a difference with \<open>10.0\<close> and \<open>1.0\<close>; a difference of
  \<open>d\<close> microseconds has \<^verbatim>\<open>total_seconds()\<close> above \<open>10.0\<close> exactly when \<open>d > 10000000\<close>
  and at least \<open>1.0\<close> exactly when \<open>d \<ge> 1000000\<close>.
\<close>

record port_info =
  port :: string
  baudrate :: int
  databits :: int
  stopbits :: string
  parity :: string

record recovery_state =
  lost_port_info :: "port_info option"
  lost_port_config :: "(nat \<times> nat) list option"
  recovery_start_time :: "int option"
  port_stable_time :: "int option"
  last_port_state :: bool
  recovery_check_timer :: bool

datatype recovery_action = No_action | Reconnect port_info "(nat \<times> nat) list option"

definition stop_recovery_check :: "recovery_state \<Rightarrow> recovery_state" where
  "stop_recovery_check s =
     s\<lparr>recovery_check_timer := False, recovery_start_time := None, port_stable_time := None,
       last_port_state := False, lost_port_info := None, lost_port_config := None\<rparr>"

definition start_smart_recovery :: "recovery_state \<Rightarrow> int \<Rightarrow> recovery_state" where
  "start_smart_recovery s now =
     (if lost_port_info s = None then s
      else s\<lparr>recovery_start_time := Some now, port_stable_time := None,
             last_port_state := False, recovery_check_timer := True\<rparr>)"

text \<open>
  \<^verbatim>\<open>recover_connection\<close> up to the point where it opens the port: it saves the snapshot,
  stops the recovery check and then attempts the connection, which is the action
  \<open>Reconnect\<close>. Whether the port opens is the operating system's answer.
\<close>

definition recover_connection :: "recovery_state \<Rightarrow> recovery_state \<times> recovery_action" where
  "recover_connection s =
     (case lost_port_info s of
        None \<Rightarrow> (stop_recovery_check s, No_action)
      | Some saved_port_info \<Rightarrow>
          (stop_recovery_check s, Reconnect saved_port_info (lost_port_config s)))"

text \<open>
  One tick of the probe timer at time \<open>now\<close>. \<open>ports\<close> is the answer of
  \<^verbatim>\<open>serial.tools.list_ports.comports()\<close>, the device names, or \<open>None\<close> when the call
  raises: the \<^verbatim>\<open>except\<close> clause then logs and leaves the state as it is.
\<close>

definition check_port_recovery ::
  "recovery_state \<Rightarrow> int \<Rightarrow> string list option \<Rightarrow> recovery_state \<times> recovery_action" where
  "check_port_recovery s current_time ports =
     (case (lost_port_info s, recovery_start_time s) of
        (Some info, Some start) \<Rightarrow>
          (let elapsed = current_time - start in
           if elapsed > 10000000 then (stop_recovery_check s, No_action)
           else
             (case ports of
                None \<Rightarrow> (s, No_action)
              | Some devices \<Rightarrow>
                 (let port_exists = (port info \<in> set devices) in
                  if port_exists then
                    (if \<not> last_port_state s
                     then (s\<lparr>port_stable_time := Some current_time, last_port_state := True\<rparr>,
                           No_action)
                     else
                       (case port_stable_time s of
                          None \<Rightarrow> (s, No_action)
                        | Some stable_since \<Rightarrow>
                            if current_time - stable_since \<ge> 1000000 then recover_connection s
                            else (s, No_action)))
                  else
                    ((if last_port_state s then s\<lparr>port_stable_time := None\<rparr> else s)
                       \<lparr>last_port_state := False\<rparr>, No_action))))
      | _ \<Rightarrow> (stop_recovery_check s, No_action))"

text \<open>A run of probe ticks, each with its time and the ports it finds; the actions in order.\<close>

fun run_ticks ::
  "recovery_state \<Rightarrow> (int \<times> string list option) list \<Rightarrow> recovery_state \<times> recovery_action list" where
  "run_ticks s [] = (s, [])"
| "run_ticks s ((t, ports) # ticks) =
     (let (s1, a) = check_port_recovery s t ports;
          (s2, as) = run_ticks s1 ticks
      in (s2, a # as))"

definition is_reconnect :: "recovery_action \<Rightarrow> bool" where
  "is_reconnect a = (case a of No_action \<Rightarrow> False | Reconnect i c \<Rightarrow> True)"

text \<open>
  What a tick observes of the target device: present, absent, or neither when the
  enumeration raised.
\<close>

definition port_present :: "string \<Rightarrow> int \<times> string list option \<Rightarrow> bool" where
  "port_present target tick =
     (case snd tick of None \<Rightarrow> False | Some devices \<Rightarrow> target \<in> set devices)"

definition port_absent :: "string \<Rightarrow> int \<times> string list option \<Rightarrow> bool" where
  "port_absent target tick =
     (case snd tick of None \<Rightarrow> False | Some devices \<Rightarrow> target \<notin> set devices)"

text \<open>
  The debounce condition on a run of ticks: the device was seen at tick \<open>j\<close>, no tick
  from \<open>j\<close> to \<open>i\<close> saw it absent, it is seen at tick \<open>i\<close>, and at least one second
  lies between the two ticks.
\<close>

definition stable_from ::
  "string \<Rightarrow> (int \<times> string list option) list \<Rightarrow> nat \<Rightarrow> nat \<Rightarrow> bool" where
  "stable_from target ticks j i \<longleftrightarrow>
     j < i \<and> port_present target (ticks ! j) \<and> port_present target (ticks ! i) \<and>
     (\<forall>k \<in> {j..i}. \<not> port_absent target (ticks ! k)) \<and>
     fst (ticks ! i) - fst (ticks ! j) \<ge> 1000000"

section \<open>SerialMonitor: time calibration\<close>

record datetime =
  year :: int
  month :: int
  day :: int
  hour :: int
  minute :: int
  second :: int

text \<open>The ranges that a \<^verbatim>\<open>datetime\<close> object keeps its fields in.\<close>

definition wall_clock :: "datetime \<Rightarrow> bool" where
  "wall_clock now \<longleftrightarrow>
     1 \<le> year now \<and> year now \<le> 9999 \<and> 1 \<le> month now \<and> month now \<le> 12 \<and>
     1 \<le> day now \<and> day now \<le> 31 \<and> 0 \<le> hour now \<and> hour now \<le> 23 \<and>
     0 \<le> minute now \<and> minute now \<le> 59 \<and> 0 \<le> second now \<and> second now \<le> 59"

definition decimal_to_bcd :: "int \<Rightarrow> int" where
  "decimal_to_bcd decimal_value =
     (let tens = (decimal_value div 10) AND 0x0F;
          ones = (decimal_value mod 10) AND 0x0F
      in push_bit 4 tens OR ones)"

text \<open>\<^verbatim>\<open>bytearray.append\<close>: \<open>None\<close> is the \<^verbatim>\<open>ValueError\<close> for a value outside 0..255.\<close>

definition bytearray_append :: "byte list \<Rightarrow> int \<Rightarrow> byte list option" where
  "bytearray_append data v = (if 0 \<le> v \<and> v < 256 then Some (data @ [word_of_int v]) else None)"

text \<open>
  \<^verbatim>\<open>calibrate_time\<close>: the bytes written to the serial port, or \<open>None\<close> when nothing is
  written (the port is not open, or an exception was caught).
\<close>

definition calibrate_time :: "bool \<Rightarrow> datetime \<Rightarrow> byte list option" where
  "calibrate_time port_open now =
     (if \<not> port_open then None
      else
        Option.bind (bytearray_append [0x06, 0x00, 0x10, 0x24, 0x08] (decimal_to_bcd (year now mod 100))) (\<lambda>d1.
        Option.bind (bytearray_append d1 (decimal_to_bcd (month now))) (\<lambda>d2.
        Option.bind (bytearray_append d2 (decimal_to_bcd (day now))) (\<lambda>d3.
        Option.bind (bytearray_append d3 (decimal_to_bcd (hour now))) (\<lambda>d4.
        Option.bind (bytearray_append d4 (decimal_to_bcd (minute now))) (\<lambda>d5.
        Option.bind (bytearray_append d5 (decimal_to_bcd (second now))) (\<lambda>d6.
        (let crc = calculate_crc16_xmodem d6 in
         Option.bind (bytearray_append d6 (crc AND 0xFF)) (\<lambda>d7.
         bytearray_append d7 (drop_bit 8 crc AND 0xFF))))))))))"

text \<open>The BCD digit pair as the specification writes it.\<close>

definition spec_bcd :: "int \<Rightarrow> int" where
  "spec_bcd v = push_bit 4 (v div 10) OR (v mod 10)"

subsection \<open>The checksums as the specification words them\<close>

text \<open>
  The specification describes the CRCs on a 16-bit register: the byte is XORed into the
  high (MSB-first) or the low (LSB-first) byte of the register, which is then shifted
  eight times, the polynomial being XORed in whenever the bit shifted out is set.
  On \<open>16 word\<close> the shift drops the bit by itself.
\<close>

definition msb_first_shift :: "16 word \<Rightarrow> 16 word \<Rightarrow> 16 word" where
  "msb_first_shift poly reg = (if bit reg 15 then push_bit 1 reg XOR poly else push_bit 1 reg)"

definition spec_crc16_msb_first :: "16 word \<Rightarrow> 16 word \<Rightarrow> byte list \<Rightarrow> 16 word" where
  "spec_crc16_msb_first poly init data =
     fold (\<lambda>b reg. (msb_first_shift poly ^^ 8) (reg XOR push_bit 8 (ucast b))) data init"

definition lsb_first_shift :: "16 word \<Rightarrow> 16 word \<Rightarrow> 16 word" where
  "lsb_first_shift poly reg = (if bit reg 0 then drop_bit 1 reg XOR poly else drop_bit 1 reg)"

definition spec_crc16_lsb_first :: "16 word \<Rightarrow> 16 word \<Rightarrow> byte list \<Rightarrow> 16 word" where
  "spec_crc16_lsb_first poly init data =
     fold (\<lambda>b reg. (lsb_first_shift poly ^^ 8) (reg XOR ucast b)) data init"

definition spec_sum8 :: "byte list \<Rightarrow> nat" where
  "spec_sum8 data = sum_list (map unat data) mod 256"

definition spec_xor8 :: "byte list \<Rightarrow> byte" where
  "spec_xor8 data = fold (XOR) data 0"

section \<open>Facts about the checksum engine\<close>

lemma and_0xFFFF_take_bit: "(k::int) AND 0xFFFF = take_bit 16 k"
proof -
  have "(0xFFFF::int) = mask 16"
    by (simp add: mask_eq_exp_minus_1)
  then show ?thesis
    by (simp add: take_bit_eq_mask)
qed

lemma and_0xFF_mod: "(k::int) AND 0xFF = k mod 256"
proof -
  have "(0xFF::int) = mask 8"
    by (simp add: mask_eq_exp_minus_1)
  then have "k AND 0xFF = take_bit 8 k"
    by (simp add: take_bit_eq_mask)
  then show ?thesis
    by (simp add: take_bit_eq_mod)
qed

lemma take_bit_uint16: "take_bit 16 (uint (w::16 word)) = uint w"
  by (simp add: take_bit_int_eq_self_iff uint_lt2p [where 'a=16, simplified])

lemma top_bit_test: "(uint (w::16 word) AND 0x8000 \<noteq> 0) = bit w 15"
proof -
  have "(uint w AND 2 ^ 15 \<noteq> 0) = bit (uint w) 15"
    by (simp only: and_exp_eq_0_iff_not_bit) simp
  then show ?thesis
    by (simp add: bit_uint_iff)
qed

lemma low_bit_test: "(uint (w::16 word) AND 0x0001 \<noteq> 0) = bit w 0"
proof -
  have "(uint w AND 2 ^ 0 \<noteq> 0) = bit (uint w) 0"
    by (simp only: and_exp_eq_0_iff_not_bit) simp
  then show ?thesis
    by (simp add: bit_uint_iff)
qed

lemma uint_shift_left_xor:
  "uint (push_bit 1 (w::16 word) XOR p) = (push_bit 1 (uint w) XOR uint p) AND 0xFFFF"
  by (simp only: and_0xFFFF_take_bit unsigned_xor_eq unsigned_push_bit_eq take_bit_xor
      take_bit_uint16) simp

lemma uint_shift_left:
  "uint (push_bit 1 (w::16 word)) = push_bit 1 (uint w) AND 0xFFFF"
  by (simp only: and_0xFFFF_take_bit unsigned_push_bit_eq) simp

lemma shift_left_round_word:
  "shift_left_round (uint w) = uint (msb_first_shift 0x1021 w)"
proof (cases "bit w 15")
  case True
  have "uint (push_bit 1 w XOR 0x1021) = (push_bit 1 (uint w) XOR uint (0x1021 :: 16 word)) AND 0xFFFF"
    by (rule uint_shift_left_xor)
  with True show ?thesis
    by (simp add: shift_left_round_def msb_first_shift_def top_bit_test)
next
  case False
  then show ?thesis
    by (simp only: shift_left_round_def msb_first_shift_def top_bit_test uint_shift_left if_False)
qed

lemma shift_left_rounds_word:
  "(shift_left_round ^^ n) (uint w) = uint ((msb_first_shift 0x1021 ^^ n) w)"
  by (induction n) (simp_all add: shift_left_round_word)

lemma shift_right_round_word:
  "shift_right_round (uint w) = uint (lsb_first_shift 0xA001 w)"
proof (cases "bit w 0")
  case True
  have "uint (drop_bit 1 w XOR 0xA001) = drop_bit 1 (uint w) XOR uint (0xA001 :: 16 word)"
    by (simp add: unsigned_xor_eq unsigned_drop_bit_eq take_bit_uint16)
  with True show ?thesis
    by (simp add: shift_right_round_def lsb_first_shift_def low_bit_test)
next
  case False
  have "uint (drop_bit 1 w) = drop_bit 1 (uint w)"
    by (simp add: unsigned_drop_bit_eq take_bit_uint16)
  with False show ?thesis
    by (simp add: shift_right_round_def lsb_first_shift_def low_bit_test)
qed

lemma shift_right_rounds_word:
  "(shift_right_round ^^ n) (uint w) = uint ((lsb_first_shift 0xA001 ^^ n) w)"
  by (induction n) (simp_all add: shift_right_round_word)

lemma uint_xor_high_byte:
  "uint (r XOR push_bit 8 (ucast (b::byte)) :: 16 word) = uint r XOR push_bit 8 (uint b)"
proof -
  have "uint (push_bit 8 (ucast b :: 16 word)) = push_bit 8 (uint b)"
    by (rule bit_eqI) (auto simp: bit_simps dest: bit_imp_le_length)
  then show ?thesis
    by (simp only: unsigned_xor_eq)
qed

lemma uint_xor_low_byte:
  "uint (r XOR ucast (b::byte) :: 16 word) = uint r XOR uint b"
proof -
  have "uint (ucast b :: 16 word) = uint b"
    by (rule bit_eqI) (auto simp: bit_simps dest: bit_imp_le_length)
  then show ?thesis
    by (simp only: unsigned_xor_eq)
qed

lemma msb_fold_word:
  "fold (\<lambda>byte crc. (shift_left_round ^^ 8) (crc XOR push_bit 8 (uint byte))) (data :: byte list) (uint w) =
   uint (fold (\<lambda>b reg. (msb_first_shift 0x1021 ^^ 8) (reg XOR push_bit 8 (ucast b))) data w)"
proof (induction data arbitrary: w)
  case Nil
  show ?case by simp
next
  case (Cons b data w)
  have "uint w XOR push_bit 8 (uint b) = uint (w XOR push_bit 8 (ucast b))"
    by (rule uint_xor_high_byte [symmetric])
  then have "(shift_left_round ^^ 8) (uint w XOR push_bit 8 (uint b)) =
        uint ((msb_first_shift 0x1021 ^^ 8) (w XOR push_bit 8 (ucast b)))"
    by (simp only: shift_left_rounds_word)
  with Cons.IH show ?case
    by simp
qed

lemma lsb_fold_word:
  "fold (\<lambda>byte crc. (shift_right_round ^^ 8) (crc XOR uint byte)) (data :: byte list) (uint w) =
   uint (fold (\<lambda>b reg. (lsb_first_shift 0xA001 ^^ 8) (reg XOR ucast b)) data w)"
proof (induction data arbitrary: w)
  case Nil
  show ?case by simp
next
  case (Cons b data w)
  have "uint w XOR uint b = uint (w XOR ucast b)"
    by (rule uint_xor_low_byte [symmetric])
  then have "(shift_right_round ^^ 8) (uint w XOR uint b) =
        uint ((lsb_first_shift 0xA001 ^^ 8) (w XOR ucast b))"
    by (simp only: shift_right_rounds_word)
  with Cons.IH show ?case
    by simp
qed

lemma ccitt_is_register: "calculate_ccitt_crc16 data = uint (spec_crc16_msb_first 0x1021 0xFFFF data)"
  using msb_fold_word [of data "0xFFFF"]
  by (simp add: calculate_ccitt_crc16_def spec_crc16_msb_first_def)

lemma xmodem_is_register: "calculate_crc16_xmodem data = uint (spec_crc16_msb_first 0x1021 0x0000 data)"
  using msb_fold_word [of data 0]
  by (simp add: calculate_crc16_xmodem_def spec_crc16_msb_first_def)

lemma modbus_is_register: "calculate_modbus_crc16 data = uint (spec_crc16_lsb_first 0xA001 0xFFFF data)"
  using lsb_fold_word [of data "0xFFFF"]
  by (simp add: calculate_modbus_crc16_def spec_crc16_lsb_first_def)

lemma sum_list_uint_unat: "sum_list (map uint data) = int (sum_list (map unat data))"
  by (induction data) simp_all

lemma sum_check_is_mod: "calculate_sum_check data = int (spec_sum8 data)"
  by (simp add: calculate_sum_check_def spec_sum8_def and_0xFF_mod sum_list_uint_unat zmod_int)

lemma xor_fold_word:
  "fold (\<lambda>byte result. result XOR uint byte) data (uint (w::byte)) = uint (fold (XOR) data w)"
proof (induction data arbitrary: w)
  case Nil
  show ?case by simp
next
  case (Cons b data w)
  have "uint w XOR uint b = uint (b XOR w)"
    by (simp add: unsigned_xor_eq xor.commute)
  with Cons.IH [of "b XOR w"] show ?case
    by simp
qed

lemma xor_check_is_fold: "calculate_xor_check data = uint (spec_xor8 data)"
  using xor_fold_word [of data 0]
  by (simp add: calculate_xor_check_def spec_xor8_def)

text \<open>
  C7. Each of the five checksum functions is a total function of the byte slice and
  agrees with its stated definition: CRC16-CCITT is the MSB-first register CRC with
  polynomial 0x1021 and initial value 0xFFFF, CRC16-XMODEM the same with initial value
  0x0000, CRC16-Modbus the LSB-first register CRC with the reflected polynomial 0xA001 and
  initial value 0xFFFF, Sum8 the byte sum modulo 256, Xor8 the XOR of all bytes. On the
  empty input they return 0xFFFF, 0x0000, 0xFFFF, 0 and 0.
\<close>

theorem checksum_engine_reference:
  "calculate_ccitt_crc16 data = uint (spec_crc16_msb_first 0x1021 0xFFFF data) \<and>
   calculate_crc16_xmodem data = uint (spec_crc16_msb_first 0x1021 0x0000 data) \<and>
   calculate_modbus_crc16 data = uint (spec_crc16_lsb_first 0xA001 0xFFFF data) \<and>
   calculate_sum_check data = int (spec_sum8 data) \<and>
   calculate_xor_check data = uint (spec_xor8 data) \<and>
   calculate_ccitt_crc16 [] = 0xFFFF \<and>
   calculate_crc16_xmodem [] = 0x0000 \<and>
   calculate_modbus_crc16 [] = 0xFFFF \<and>
   calculate_sum_check [] = 0 \<and>
   calculate_xor_check [] = 0"
proof -
  have e1: "calculate_ccitt_crc16 [] = 0xFFFF"
    by (simp add: calculate_ccitt_crc16_def)
  have e2: "calculate_crc16_xmodem [] = 0x0000"
    by (simp add: calculate_crc16_xmodem_def)
  have e3: "calculate_modbus_crc16 [] = 0xFFFF"
    by (simp add: calculate_modbus_crc16_def)
  have e4: "calculate_sum_check [] = 0"
    by (simp add: calculate_sum_check_def)
  have e5: "calculate_xor_check [] = 0"
    by (simp add: calculate_xor_check_def)
  from ccitt_is_register xmodem_is_register modbus_is_register sum_check_is_mod
    xor_check_is_fold e1 e2 e3 e4 e5
  show ?thesis
    by blast
qed


section \<open>Checksum verification\<close>

lemma slice_last_two:
  assumes "2 \<le> length frame"
  shows "slice_from (- 2) frame = [frame ! (length frame - 2), frame ! (length frame - 1)]"
proof -
  let ?n = "length frame"
  have "slice_from (- 2) frame = drop (?n - 2) frame"
    using assms by (simp add: slice_from_def nat_diff_distrib')
  also have "\<dots> = frame ! (?n - 2) # drop (Suc (?n - 2)) frame"
    using assms by (intro Cons_nth_drop_Suc [symmetric]) simp
  also have "drop (Suc (?n - 2)) frame = drop (?n - 1) frame"
  proof -
    from assms have "Suc (?n - 2) = ?n - 1" by linarith
    then show ?thesis by (simp only:)
  qed
  also have "drop (?n - 1) frame = frame ! (?n - 1) # drop (Suc (?n - 1)) frame"
    using assms by (intro Cons_nth_drop_Suc [symmetric]) simp
  also have "drop (Suc (?n - 1)) frame = []"
    using assms by simp
  finally show ?thesis .
qed

lemma unpack_two:
  "unpack_uint LE 2 [b0, b1] = Some (uint b0 + 256 * uint b1)"
  "unpack_uint BE 2 [b0, b1] = Some (256 * uint b0 + uint b1)"
  by (simp_all add: unpack_uint_def)

text \<open>
  C3 (amended). Checksum verification byte order: a candidate frame of at least 3 bytes is
  accepted under a CRC16 kind if and only if the CRC recomputed over the frame minus its
  last 2 bytes equals those 2 bytes read in the kind's byte order: CRC16-CCITT big-endian
  (high byte first), CRC16-XMODEM and CRC16-Modbus little-endian (low byte first); a
  candidate of at least 2 bytes is accepted under Sum8 or Xor8 if and only if the checksum
  recomputed over the frame minus its last byte equals that byte; a candidate shorter than
  that is rejected; checksum kind None always accepts.
\<close>

theorem checksum_byte_order:
  "verify_crc Crc_none frame \<and>
   (length frame < 3 \<longrightarrow>
      \<not> verify_crc CRC16_CCITT frame \<and> \<not> verify_crc CRC16_XMODEM frame \<and>
      \<not> verify_crc CRC16_MODBUS frame) \<and>
   (3 \<le> length frame \<longrightarrow>
      (verify_crc CRC16_CCITT frame \<longleftrightarrow>
         calculate_ccitt_crc16 (take (length frame - 2) frame) =
           256 * uint (frame ! (length frame - 2)) + uint (frame ! (length frame - 1))) \<and>
      (verify_crc CRC16_XMODEM frame \<longleftrightarrow>
         calculate_crc16_xmodem (take (length frame - 2) frame) =
           uint (frame ! (length frame - 2)) + 256 * uint (frame ! (length frame - 1))) \<and>
      (verify_crc CRC16_MODBUS frame \<longleftrightarrow>
         calculate_modbus_crc16 (take (length frame - 2) frame) =
           uint (frame ! (length frame - 2)) + 256 * uint (frame ! (length frame - 1)))) \<and>
   (length frame < 2 \<longrightarrow> \<not> verify_crc Sum_check frame \<and> \<not> verify_crc Xor_check frame) \<and>
   (2 \<le> length frame \<longrightarrow>
      (verify_crc Sum_check frame \<longleftrightarrow>
         calculate_sum_check (take (length frame - 1) frame) = uint (last frame)) \<and>
      (verify_crc Xor_check frame \<longleftrightarrow>
         calculate_xor_check (take (length frame - 1) frame) = uint (last frame)))"
proof (intro conjI impI)
  show "verify_crc Crc_none frame" by (simp add: verify_crc_def)
next
  assume "length frame < 3"
  then show "\<not> verify_crc CRC16_CCITT frame" "\<not> verify_crc CRC16_XMODEM frame"
    "\<not> verify_crc CRC16_MODBUS frame"
    by (simp_all add: verify_crc_def)
next
  assume "length frame < 2"
  then show "\<not> verify_crc Sum_check frame" "\<not> verify_crc Xor_check frame"
    by (simp_all add: verify_crc_def)
next
  assume "2 \<le> length frame"
  then show "verify_crc Sum_check frame \<longleftrightarrow>
         calculate_sum_check (take (length frame - 1) frame) = uint (last frame)"
    "verify_crc Xor_check frame \<longleftrightarrow>
         calculate_xor_check (take (length frame - 1) frame) = uint (last frame)"
    by (auto simp: verify_crc_def Let_def)
next
  assume a: "3 \<le> length frame"
  then have s: "slice_from (- 2) frame = [frame ! (length frame - 2), frame ! (length frame - 1)]"
    by (intro slice_last_two) simp
  from a show "verify_crc CRC16_CCITT frame \<longleftrightarrow>
         calculate_ccitt_crc16 (take (length frame - 2) frame) =
           256 * uint (frame ! (length frame - 2)) + uint (frame ! (length frame - 1))"
    by (auto simp: verify_crc_def Let_def s unpack_two)
  from a show "verify_crc CRC16_XMODEM frame \<longleftrightarrow>
         calculate_crc16_xmodem (take (length frame - 2) frame) =
           uint (frame ! (length frame - 2)) + 256 * uint (frame ! (length frame - 1))"
    by (auto simp: verify_crc_def Let_def s unpack_two)
  from a show "verify_crc CRC16_MODBUS frame \<longleftrightarrow>
         calculate_modbus_crc16 (take (length frame - 2) frame) =
           uint (frame ! (length frame - 2)) + 256 * uint (frame ! (length frame - 1))"
    by (auto simp: verify_crc_def Let_def s unpack_two)
qed

theorem checksum_byte_order_witness:
  "verify_crc CRC16_CCITT [0x31, 0xC7, 0x82] \<and> \<not> verify_crc CRC16_CCITT [0x31, 0x82, 0xC7] \<and>
   verify_crc CRC16_XMODEM [0x31, 0x72, 0x26] \<and> \<not> verify_crc CRC16_XMODEM [0x31, 0x26, 0x72] \<and>
   verify_crc Sum_check [0xA8, 0x01, 0xA9] \<and> \<not> verify_crc Sum_check [0xA8] \<and>
   \<not> verify_crc CRC16_MODBUS [0xFF, 0xFF]"
proof -
  note t = checksum_byte_order
  have "calculate_ccitt_crc16 (take (length [0x31, 0xC7, 0x82 :: byte] - 2) [0x31, 0xC7, 0x82]) =
      256 * uint ([0x31, 0xC7, 0x82 :: byte] ! (length [0x31, 0xC7, 0x82 :: byte] - 2)) +
      uint ([0x31, 0xC7, 0x82 :: byte] ! (length [0x31, 0xC7, 0x82 :: byte] - 1))"
    by code_simp
  with t [of "[0x31, 0xC7, 0x82]"] have a: "verify_crc CRC16_CCITT [0x31, 0xC7, 0x82]" by simp
  have "calculate_ccitt_crc16 (take (length [0x31, 0x82, 0xC7 :: byte] - 2) [0x31, 0x82, 0xC7]) \<noteq>
      256 * uint ([0x31, 0x82, 0xC7 :: byte] ! (length [0x31, 0x82, 0xC7 :: byte] - 2)) +
      uint ([0x31, 0x82, 0xC7 :: byte] ! (length [0x31, 0x82, 0xC7 :: byte] - 1))"
    by code_simp
  with t [of "[0x31, 0x82, 0xC7]"] have b: "\<not> verify_crc CRC16_CCITT [0x31, 0x82, 0xC7]" by simp
  have "calculate_crc16_xmodem (take (length [0x31, 0x72, 0x26 :: byte] - 2) [0x31, 0x72, 0x26]) =
      uint ([0x31, 0x72, 0x26 :: byte] ! (length [0x31, 0x72, 0x26 :: byte] - 2)) +
      256 * uint ([0x31, 0x72, 0x26 :: byte] ! (length [0x31, 0x72, 0x26 :: byte] - 1))"
    by code_simp
  with t [of "[0x31, 0x72, 0x26]"] have c: "verify_crc CRC16_XMODEM [0x31, 0x72, 0x26]" by simp
  have "calculate_crc16_xmodem (take (length [0x31, 0x26, 0x72 :: byte] - 2) [0x31, 0x26, 0x72]) \<noteq>
      uint ([0x31, 0x26, 0x72 :: byte] ! (length [0x31, 0x26, 0x72 :: byte] - 2)) +
      256 * uint ([0x31, 0x26, 0x72 :: byte] ! (length [0x31, 0x26, 0x72 :: byte] - 1))"
    by code_simp
  with t [of "[0x31, 0x26, 0x72]"] have d: "\<not> verify_crc CRC16_XMODEM [0x31, 0x26, 0x72]" by simp
  have "calculate_sum_check (take (length [0xA8, 0x01, 0xA9 :: byte] - 1) [0xA8, 0x01, 0xA9]) =
      uint (last [0xA8, 0x01, 0xA9 :: byte])"
    by code_simp
  with t [of "[0xA8, 0x01, 0xA9]"] have e: "verify_crc Sum_check [0xA8, 0x01, 0xA9]" by simp
  from t [of "[0xA8]"] have f: "\<not> verify_crc Sum_check [0xA8]" by simp
  from t [of "[0xFF, 0xFF]"] have g: "\<not> verify_crc CRC16_MODBUS [0xFF, 0xFF]" by simp
  from a b c d e f g show ?thesis by blast
qed

theorem checksum_byte_order_counterexample:
  "length [0xFF, 0xFF :: byte] - 2 = 0 \<and>
   calculate_ccitt_crc16 (take (length [0xFF, 0xFF :: byte] - 2) [0xFF, 0xFF]) =
     256 * uint (0xFF :: byte) + uint (0xFF :: byte) \<and>
   \<not> verify_crc CRC16_CCITT [0xFF, 0xFF]"
  by code_simp

section \<open>Facts about the frame synchronizer\<close>

lemma take_eq_length: "take (length s) buf = s \<Longrightarrow> length s \<le> length buf"
proof -
  assume "take (length s) buf = s"
  then have "length (take (length s) buf) = length s" by simp
  then show ?thesis by (simp add: min_def split: if_splits)
qed

lemma find_bytes_prefix: "take (length sub) buf = sub \<Longrightarrow> find_bytes buf sub = Some 0"
  by (cases buf) auto

lemma find_bytes_Some:
  "find_bytes buf sub = Some i \<Longrightarrow> i + length sub \<le> length buf \<and> take (length sub) (drop i buf) = sub"
proof (induction buf arbitrary: i)
  case Nil
  then show ?case by (simp split: if_splits)
next
  case (Cons b bs)
  show ?case
  proof (cases "take (length sub) (b # bs) = sub")
    case True
    with Cons.prems have "i = 0" by simp
    moreover from True have "length sub \<le> length (b # bs)"
      by (rule take_eq_length)
    ultimately show ?thesis using True by simp
  next
    case False
    with Cons.prems obtain j where j: "find_bytes bs sub = Some j" "i = Suc j"
      by auto
    from Cons.IH [OF j(1)] j(2) show ?thesis by simp
  qed
qed

lemma find_bytes_least:
  "find_bytes buf sub = Some i \<Longrightarrow> j < i \<Longrightarrow> take (length sub) (drop j buf) \<noteq> sub"
proof (induction buf arbitrary: i j)
  case Nil
  then show ?case by (simp split: if_splits)
next
  case (Cons b bs)
  from Cons.prems have nf: "take (length sub) (b # bs) \<noteq> sub"
    by (auto split: if_splits)
  with Cons.prems obtain k where k: "find_bytes bs sub = Some k" "i = Suc k"
    by auto
  show ?case
  proof (cases j)
    case 0
    with nf show ?thesis by simp
  next
    case (Suc j')
    with Cons.prems k have "j' < k" by simp
    from Cons.IH [OF k(1) this] Suc show ?thesis by simp
  qed
qed

lemma find_bytes_None:
  "find_bytes buf sub = None \<Longrightarrow> take (length sub) (drop j buf) \<noteq> sub"
proof (induction buf arbitrary: j)
  case Nil
  then show ?case by (auto split: if_splits)
next
  case (Cons b bs)
  from Cons.prems have nf: "take (length sub) (b # bs) \<noteq> sub" and n: "find_bytes bs sub = None"
    by (auto split: if_splits)
  show ?case
  proof (cases j)
    case 0
    with nf show ?thesis by simp
  next
    case (Suc j')
    with Cons.IH [OF n, of j'] show ?thesis by simp
  qed
qed

lemma find_bytes_at:
  assumes "take (length sub) (drop i buf) = sub" and "i + length sub \<le> length buf"
    and "\<And>j. j < i \<Longrightarrow> take (length sub) (drop j buf) \<noteq> sub"
  shows "find_bytes buf sub = Some i"
proof (cases "find_bytes buf sub")
  case None
  from find_bytes_None [OF this, of i] assms(1) show ?thesis by simp
next
  case (Some k)
  have "\<not> k < i" using find_bytes_Some [OF Some] assms(3) [of k] by auto
  moreover have "\<not> i < k" using find_bytes_least [OF Some, of i] assms(1) by auto
  ultimately show ?thesis using Some by simp
qed

lemma slice_from_tail:
  assumes "length frame = n"
  shows "(slice_from (int n - int (length t)) frame = t) = (drop (n - length t) frame = t)"
proof (cases "length t \<le> n")
  case True
  then have "nat (int n - int (length t)) = n - length t" by simp
  with True show ?thesis by (simp add: slice_from_def)
next
  case False
  have "length (slice_from (int n - int (length t)) frame) \<le> length frame"
    by (simp add: slice_from_def)
  with assms False have "slice_from (int n - int (length t)) frame \<noteq> t" by auto
  moreover from assms False have "drop (n - length t) frame \<noteq> t" by auto
  ultimately show ?thesis by simp
qed

lemma loop_body_pass:
  "(if \<not> length (buffer p) \<ge> length_cfg p then Some (results, p)
      else
        (case
           (if length (header p) > 0 then
              (case find_bytes (buffer p) (header p) of
                 None \<Rightarrow>
                   Inl (if length (buffer p) > length (header p)
                        then p\<lparr>buffer := slice_from (- (int (length (header p)) - 1)) (buffer p)\<rparr>
                        else p)
               | Some header_index \<Rightarrow>
                   Inr (if header_index > 0 then p\<lparr>buffer := drop header_index (buffer p)\<rparr>
                        else p))
            else Inr p)
         of
           Inl p1 \<Rightarrow> Some (results, p1)
         | Inr p1 \<Rightarrow>
            (if length (buffer p1) < length_cfg p1 then Some (results, p1)
             else
               (let frame = take (length_cfg p1) (buffer p1) in
                if length (tail p1) > 0 \<and>
                   slice_from (int (length_cfg p1) - int (length (tail p1))) frame \<noteq> tail p1
                then f (p1\<lparr>buffer := drop (max 1 (length (header p1))) (buffer p1)\<rparr>)
                       results
                else if \<not> verify_crc (crc_type p1) frame
                then f (p1\<lparr>buffer := drop (max 1 (length (header p1))) (buffer p1)\<rparr>)
                       results
                else f (p1\<lparr>buffer := drop (length_cfg p1) (buffer p1)\<rparr>)
                       (results @ [\<lparr>protocol_name = name p1, raw_frame = frame\<rparr>]))))) =
   (case parse_pass p of
      Break p1 \<Rightarrow> Some (results, p1)
    | Skip p1 \<Rightarrow> f p1 results
    | Emit r p1 \<Rightarrow> f p1 (results @ [r]))"
  by (simp add: parse_pass_def Let_def split: option.splits sum.splits)

lemma parse_loop_pass:
  "parse_loop p rs =
     (case parse_pass p of
        Break p1 \<Rightarrow> Some (rs, p1)
      | Skip p1 \<Rightarrow> parse_loop p1 rs
      | Emit r p1 \<Rightarrow> parse_loop p1 (rs @ [r]))"
  by (subst parse_loop.simps) (rule loop_body_pass)

lemma parse_loop_induct [consumes 1, case_names Break Skip Emit]:
  assumes "parse_loop p rs = Some y"
    and "\<And>p rs p1. parse_pass p = Break p1 \<Longrightarrow> P p rs (rs, p1)"
    and "\<And>p rs p1 y. parse_pass p = Skip p1 \<Longrightarrow> P p1 rs y \<Longrightarrow> P p rs y"
    and "\<And>p rs r p1 y. parse_pass p = Emit r p1 \<Longrightarrow> P p1 (rs @ [r]) y \<Longrightarrow> P p rs y"
  shows "P p rs y"
proof (rule parse_loop.raw_induct [OF _ assms(1)], goal_cases)
  case (1 f p results pa)
  from 1(2) have "(case parse_pass p of
        Break p1 \<Rightarrow> Some (results, p1)
      | Skip p1 \<Rightarrow> f p1 results
      | Emit r p1 \<Rightarrow> f p1 (results @ [r])) = Some pa"
    by (simp only: loop_body_pass)
  then show ?case
    using 1(1) assms(2-4) by (cases "parse_pass p") auto
qed

text \<open>The header search of one pass.\<close>

lemma parse_pass_cases:
  obtains (short) "length (buffer p) < length_cfg p" "parse_pass p = Break p"
  | (no_header) "length_cfg p \<le> length (buffer p)" "header p \<noteq> []"
      "find_bytes (buffer p) (header p) = None"
      "parse_pass p = Break (if length (buffer p) > length (header p)
          then p\<lparr>buffer := slice_from (- (int (length (header p)) - 1)) (buffer p)\<rparr> else p)"
  | (located) i where "length_cfg p \<le> length (buffer p)"
      "if header p = [] then i = 0 else find_bytes (buffer p) (header p) = Some i"
      "parse_pass p =
         (let b = drop i (buffer p) in
          if length b < length_cfg p then Break (p\<lparr>buffer := b\<rparr>)
          else if (tail p = [] \<or> drop (length_cfg p - length (tail p)) (take (length_cfg p) b) = tail p)
                  \<and> verify_crc (crc_type p) (take (length_cfg p) b)
          then Emit \<lparr>protocol_name = name p, raw_frame = take (length_cfg p) b\<rparr>
                 (p\<lparr>buffer := drop (length_cfg p) b\<rparr>)
          else Skip (p\<lparr>buffer := drop (max 1 (length (header p))) b\<rparr>))"
proof (cases "length (buffer p) < length_cfg p")
  case True
  then show ?thesis by (intro short) (simp_all add: parse_pass_def)
next
  case long: False
  show ?thesis
  proof (cases "header p = []")
    case True
    have "length (take (length_cfg p) (buffer p)) = length_cfg p"
      using long by simp
    note st = slice_from_tail [OF this, of "tail p"]
    show ?thesis
      by (rule located [of 0]) (use long True st in \<open>auto simp: parse_pass_def Let_def\<close>)
  next
    case hdr: False
    show ?thesis
    proof (cases "find_bytes (buffer p) (header p)")
      case None
      show ?thesis
        by (rule no_header) (use long hdr None in \<open>auto simp: parse_pass_def\<close>)
    next
      case (Some i)
      show ?thesis
      proof (cases "length (drop i (buffer p)) < length_cfg p")
        case True
        show ?thesis
          by (rule located [of i]) (use long hdr Some True in \<open>auto simp: parse_pass_def Let_def\<close>)
      next
        case False
        then have "length (take (length_cfg p) (drop i (buffer p))) = length_cfg p"
          by simp
        note st = slice_from_tail [OF this, of "tail p"]
        show ?thesis
          by (rule located [of i])
            (use long hdr Some False st in \<open>auto simp: parse_pass_def Let_def\<close>)
      qed
    qed
  qed
qed

lemma frame_ok_buffer: "frame_ok (p\<lparr>buffer := b\<rparr>) r = frame_ok p r"
  by (simp add: frame_ok_def)

lemma parse_pass_config:
  assumes "parse_pass p = Break p1 \<or> parse_pass p = Skip p1 \<or> parse_pass p = Emit r p1"
  shows "\<exists>b. p1 = p\<lparr>buffer := b\<rparr>"
proof (cases p rule: parse_pass_cases)
  case short
  with assms have "p1 = p\<lparr>buffer := buffer p\<rparr>" by simp
  then show ?thesis ..
next
  case no_header
  with assms have "p1 = p\<lparr>buffer := buffer p1\<rparr>" by (auto split: if_splits)
  then show ?thesis ..
next
  case (located i)
  with assms have "p1 = p\<lparr>buffer := buffer p1\<rparr>" by (auto simp: Let_def split: if_splits)
  then show ?thesis ..
qed

lemma parse_pass_shrinks:
  assumes "0 < length_cfg p" and "parse_pass p = Skip p1 \<or> parse_pass p = Emit r p1"
  shows "length (buffer p1) < length (buffer p)"
proof (cases p rule: parse_pass_cases)
  case short
  with assms show ?thesis by simp
next
  case no_header
  with assms show ?thesis by (auto split: if_splits)
next
  case (located i)
  with assms show ?thesis by (auto simp: Let_def split: if_splits)
qed

lemma parse_pass_Emit_ok:
  assumes "parse_pass p = Emit r p1"
  shows "frame_ok p r"
proof (cases p rule: parse_pass_cases)
  case short
  with assms show ?thesis by simp
next
  case no_header
  with assms show ?thesis by (auto split: if_splits)
next
  case (located i)
  let ?b = "drop i (buffer p)"
  from located(3) assms have len: "length_cfg p \<le> length ?b"
    and r: "r = \<lparr>protocol_name = name p, raw_frame = take (length_cfg p) ?b\<rparr>"
    and t: "tail p = [] \<or> drop (length_cfg p - length (tail p)) (take (length_cfg p) ?b) = tail p"
    and v: "verify_crc (crc_type p) (take (length_cfg p) ?b)"
    by (auto simp: Let_def split: if_splits)
  have h: "take (length (header p)) (take (length_cfg p) ?b) = header p"
    if "length (header p) \<le> length_cfg p"
  proof (cases "header p = []")
    case True
    then show ?thesis by simp
  next
    case False
    with located(2) have "find_bytes (buffer p) (header p) = Some i" by simp
    from find_bytes_Some [OF this] that show ?thesis by (simp add: min_def)
  qed
  from t len have "drop (length_cfg p - length (tail p)) (take (length_cfg p) ?b) = tail p"
    by auto
  with r len v h show ?thesis by (simp add: frame_ok_def)
qed

lemma parse_loop_frames:
  assumes "parse_loop p rs = Some y"
  shows "(\<forall>r \<in> set rs. frame_ok p r) \<longrightarrow>
         (\<forall>r \<in> set (fst y). frame_ok p r) \<and> (\<exists>b. snd y = p\<lparr>buffer := b\<rparr>)"
  using assms
proof (induction rule: parse_loop_induct)
  case (Break p rs p1)
  from parse_pass_config [of p p1] Break show ?case by auto
next
  case (Skip p rs p1 y)
  from parse_pass_config [of p p1] Skip(1) obtain b where "p1 = p\<lparr>buffer := b\<rparr>" by auto
  with Skip(2) show ?case by (auto simp: frame_ok_buffer)
next
  case (Emit p rs r p1 y)
  from parse_pass_config [of p p1 r] Emit(1) obtain b where "p1 = p\<lparr>buffer := b\<rparr>" by auto
  with Emit(2) parse_pass_Emit_ok [OF Emit(1)] show ?case by (auto simp: frame_ok_buffer)
qed

lemma parse_loop_returns:
  assumes "0 < length_cfg p"
  shows "\<exists>y. parse_loop p rs = Some y"
  using assms
proof (induction "length (buffer p)" arbitrary: p rs rule: less_induct)
  case less
  show ?case
  proof (cases "parse_pass p")
    case (Break p1)
    then show ?thesis by (subst parse_loop_pass) simp
  next
    case (Skip p1)
    from parse_pass_config [of p p1] Skip obtain b where b: "p1 = p\<lparr>buffer := b\<rparr>" by auto
    from parse_pass_shrinks [OF less.prems, of p1] Skip
    have "length (buffer p1) < length (buffer p)" by simp
    moreover from b less.prems have "0 < length_cfg p1" by simp
    ultimately have "\<exists>y. parse_loop p1 rs = Some y" by (rule less.hyps)
    with Skip show ?thesis by (subst parse_loop_pass) simp
  next
    case (Emit r p1)
    from parse_pass_config [of p p1 r] Emit obtain b where b: "p1 = p\<lparr>buffer := b\<rparr>" by auto
    from parse_pass_shrinks [OF less.prems, of p1 r] Emit
    have "length (buffer p1) < length (buffer p)" by simp
    moreover from b less.prems have "0 < length_cfg p1" by simp
    ultimately have "\<exists>y. parse_loop p1 (rs @ [r]) = Some y" by (rule less.hyps)
    with Emit show ?thesis by (subst parse_loop_pass) simp
  qed
qed

lemma parse_returns: "0 < length_cfg p \<Longrightarrow> \<exists>y. parse p = Some y"
  using parse_loop_returns [of p "[]"] by (auto simp: parse_def)

lemma parse_frames:
  assumes "parse p = Some (rs, p1)"
  shows "(\<forall>r \<in> set rs. frame_ok p r) \<and> (\<exists>b. p1 = p\<lparr>buffer := b\<rparr>)"
proof (cases "enabled p")
  case True
  with assms have "parse_loop p [] = Some (rs, p1)" by (simp add: parse_def)
  from parse_loop_frames [OF this] show ?thesis by simp
next
  case False
  with assms have "rs = []" and "p1 = p\<lparr>buffer := buffer p\<rparr>" by (simp_all add: parse_def)
  then show ?thesis by (metis empty_iff empty_set)
qed

lemma append_default_result_frames:
  "set (map default_raw_frame (append_default_result results frame)) \<subseteq>
   insert frame (set (map default_raw_frame results))"
  by (auto simp: append_default_result_def split: option.splits)

lemma parse_default_loop_frames:
  "(\<forall>r \<in> set results. default_frame_ok (default_raw_frame r)) \<Longrightarrow>
   \<forall>r \<in> set (fst (parse_default_loop buf results)). default_frame_ok (default_raw_frame r)"
proof (induction buf results rule: parse_default_loop.induct)
  case (1 buf results)
  show ?case
  proof (cases "length buf \<ge> FRAME_LENGTH")
    case False
    with 1(3) show ?thesis by (subst parse_default_loop.simps) simp
  next
    case long: True
    show ?thesis
    proof (cases "find_bytes buf FRAME_HEADER")
      case None
      with long 1(3) show ?thesis by (subst parse_default_loop.simps) simp
    next
      case (Some i)
      define buf1 where "buf1 = (if i > 0 then drop i buf else buf)"
      have b1: "buf1 = drop i buf" by (simp add: buf1_def)
      show ?thesis
      proof (cases "length buf1 < FRAME_LENGTH")
        case True
        with long Some 1(3) show ?thesis
          by (subst parse_default_loop.simps) (simp add: buf1_def Let_def)
      next
        case False
        define frame where "frame = take FRAME_LENGTH buf1"
        show ?thesis
        proof (cases "take 2 (drop 36 frame) \<noteq> FRAME_TAIL")
          case True
          from 1(1) [OF _ Some buf1_def False frame_def True] long 1(3)
          have "\<forall>r \<in> set (fst (parse_default_loop (drop 2 buf1) results)).
                  default_frame_ok (default_raw_frame r)" by simp
          with long Some False True show ?thesis
            by (subst parse_default_loop.simps) (simp add: buf1_def frame_def Let_def)
        next
          case tail_ok: False
          from find_bytes_Some [OF Some] have "take 2 (drop i buf) = FRAME_HEADER"
            by (simp add: FRAME_HEADER_def numeral_2_eq_2)
          with False tail_ok have "default_frame_ok frame"
            by (simp add: default_frame_ok_def frame_def b1 FRAME_LENGTH_def FRAME_HEADER_def
                FRAME_TAIL_def min_def)
          with 1(3) append_default_result_frames [of results frame]
          have "\<forall>r \<in> set (append_default_result results frame).
                  default_frame_ok (default_raw_frame r)" by auto
          from 1(2) [OF _ Some buf1_def False frame_def tail_ok this] long
          have "\<forall>r \<in> set (fst (parse_default_loop (drop FRAME_LENGTH buf1)
                  (append_default_result results frame))). default_frame_ok (default_raw_frame r)"
            by simp
          with long Some False tail_ok show ?thesis
            by (subst parse_default_loop.simps) (simp add: buf1_def frame_def Let_def)
        qed
      qed
    qed
  qed
qed

text \<open>
  C10. Every frame that \<open>parse\<close> of a \<open>GenericProtocolParser\<close> emits has exactly the
  configured frame length, begins with the configured header (for a header that fits into
  the frame length, as the data model requires), ends with the configured tail and passes
  the configured checksum check; every frame that the default parser emits has 38 bytes,
  begins with A8 A8 and ends with AA AA.
\<close>

theorem emitted_frames_well_formed:
  "(\<forall>rs p1 r. parse p = Some (rs, p1) \<and> r \<in> set rs \<longrightarrow>
      length (raw_frame r) = length_cfg p \<and>
      (length (header p) \<le> length_cfg p \<longrightarrow> take (length (header p)) (raw_frame r) = header p) \<and>
      drop (length_cfg p - length (tail p)) (raw_frame r) = tail p \<and>
      verify_crc (crc_type p) (raw_frame r)) \<and>
   (\<forall>r \<in> set (fst (parse_default buf)).
      length (default_raw_frame r) = 38 \<and> take 2 (default_raw_frame r) = [0xA8, 0xA8] \<and>
      drop 36 (default_raw_frame r) = [0xAA, 0xAA])"
proof -
  have "frame_ok p r" if "parse p = Some (rs, p1)" and "r \<in> set rs" for rs p1 r
    using parse_frames [OF that(1)] that(2) by simp
  moreover have "\<forall>r \<in> set (fst (parse_default buf)). default_frame_ok (default_raw_frame r)"
    unfolding parse_default_def by (rule parse_default_loop_frames) simp
  ultimately show ?thesis
    unfolding frame_ok_def default_frame_ok_def by blast
qed

theorem emitted_frames_well_formed_witness:
  "parse \<lparr>name = ''p'', header = [0xA8], tail = [0xA9], length_cfg = 3, crc_type = Sum_check,
           enabled = True, buffer = [0x00, 0xA8, 0x01, 0xA9, 0x05]\<rparr> =
     Some ([\<lparr>protocol_name = ''p'', raw_frame = [0xA8, 0x01, 0xA9]\<rparr>],
           \<lparr>name = ''p'', header = [0xA8], tail = [0xA9], length_cfg = 3, crc_type = Sum_check,
             enabled = True, buffer = [0x05]\<rparr>) \<and>
   verify_crc Sum_check [0xA8, 0x01, 0xA9] \<and>
   map default_raw_frame (fst (parse_default ([0xA8, 0xA8] @ replicate 34 0x01 @ [0xAA, 0xAA]))) =
     [[0xA8, 0xA8] @ replicate 34 0x01 @ [0xAA, 0xAA]] \<and>
   drop 36 ([0xA8, 0xA8] @ replicate 34 (0x01::byte) @ [0xAA, 0xAA]) = [0xAA, 0xAA]"
proof -
  let ?p = "\<lparr>name = ''p'', header = [0xA8], tail = [0xA9], length_cfg = 3, crc_type = Sum_check,
           enabled = True, buffer = [0x00, 0xA8, 0x01, 0xA9, 0x05]\<rparr>"
  let ?r = "\<lparr>protocol_name = ''p'', raw_frame = [0xA8, 0x01, 0xA9]\<rparr>"
  let ?buf = "[0xA8, 0xA8] @ replicate 34 0x01 @ [0xAA, 0xAA] :: byte list"
  have a: "parse ?p = Some ([?r], \<lparr>name = ''p'', header = [0xA8], tail = [0xA9], length_cfg = 3,
      crc_type = Sum_check, enabled = True, buffer = [0x05]\<rparr>)"
    by code_simp
  have b: "map default_raw_frame (fst (parse_default ?buf)) = [?buf]"
    by code_simp
  from emitted_frames_well_formed [of ?p ?buf] a
  have c: "verify_crc Sum_check [0xA8, 0x01, 0xA9]" by fastforce
  from b have "\<exists>r. r \<in> set (fst (parse_default ?buf)) \<and> default_raw_frame r = ?buf"
    by (cases "fst (parse_default ?buf)") auto
  with emitted_frames_well_formed [of ?p ?buf]
  have d: "drop 36 ?buf = [0xAA, 0xAA]" by metis
  from a b c d show ?thesis by blast
qed

lemma parse_pass_no_header:
  assumes "length_cfg p \<le> length (buffer p)" and "header p \<noteq> []"
    and "find_bytes (buffer p) (header p) = None"
  shows "parse_pass p = Break (if length (buffer p) > length (header p)
          then p\<lparr>buffer := slice_from (- (int (length (header p)) - 1)) (buffer p)\<rparr> else p)"
  using assms by (cases p rule: parse_pass_cases) auto

lemma parse_pass_located:
  assumes "length_cfg p \<le> length (buffer p)"
    and "if header p = [] then i = 0 else find_bytes (buffer p) (header p) = Some i"
  shows "parse_pass p =
         (let b = drop i (buffer p) in
          if length b < length_cfg p then Break (p\<lparr>buffer := b\<rparr>)
          else if (tail p = [] \<or> drop (length_cfg p - length (tail p)) (take (length_cfg p) b) = tail p)
                  \<and> verify_crc (crc_type p) (take (length_cfg p) b)
          then Emit \<lparr>protocol_name = name p, raw_frame = take (length_cfg p) b\<rparr>
                 (p\<lparr>buffer := drop (length_cfg p) b\<rparr>)
          else Skip (p\<lparr>buffer := drop (max 1 (length (header p))) b\<rparr>))"
proof (cases p rule: parse_pass_cases)
  case short
  with assms show ?thesis by simp
next
  case no_header
  with assms show ?thesis by simp
next
  case (located j)
  with assms(2) have "j = i" by (auto split: if_splits)
  with located(3) show ?thesis by simp
qed

lemma slice_from_last:
  assumes "0 < k" and "k \<le> length xs"
  shows "slice_from (- int k) xs = drop (length xs - k) xs"
  using assms by (simp add: slice_from_def nat_diff_distrib')

text \<open>
  C4 (amended). Header-not-found trimming: whenever an enabled custom synchronizer's buffer
  holds at least frame-length bytes and more than header-length bytes, the header has at
  least two bytes and does not occur in the buffer, \<open>parse\<close> emits nothing and leaves exactly
  the last header_length - 1 bytes of the old buffer; when the buffer holds no more than
  header-length bytes, it is left as it is; the default synchronizer, whose buffer holds
  at least 38 bytes without the header, clears its entire buffer.
\<close>

theorem header_not_found_trimming:
  "(enabled p \<and> length_cfg p \<le> length (buffer p) \<and> 2 \<le> length (header p) \<and>
    length (header p) < length (buffer p) \<and> find_bytes (buffer p) (header p) = None \<longrightarrow>
      parse p = Some ([], p\<lparr>buffer := drop (length (buffer p) - (length (header p) - 1)) (buffer p)\<rparr>)) \<and>
   (enabled p \<and> length_cfg p \<le> length (buffer p) \<and> header p \<noteq> [] \<and>
    length (buffer p) \<le> length (header p) \<and> find_bytes (buffer p) (header p) = None \<longrightarrow>
      parse p = Some ([], p)) \<and>
   (FRAME_LENGTH \<le> length buf \<and> find_bytes buf FRAME_HEADER = None \<longrightarrow>
      parse_default buf = ([], []))"
proof (intro conjI impI)
  assume a: "enabled p \<and> length_cfg p \<le> length (buffer p) \<and> 2 \<le> length (header p) \<and>
    length (header p) < length (buffer p) \<and> find_bytes (buffer p) (header p) = None"
  then have h: "header p \<noteq> []" by auto
  from a have "- (int (length (header p)) - 1) = - int (length (header p) - 1)"
    by auto
  moreover from a have "slice_from (- int (length (header p) - 1)) (buffer p) =
      drop (length (buffer p) - (length (header p) - 1)) (buffer p)"
    by (intro slice_from_last) auto
  ultimately have "parse_pass p =
      Break (p\<lparr>buffer := drop (length (buffer p) - (length (header p) - 1)) (buffer p)\<rparr>)"
    using a h parse_pass_no_header [of p] by simp
  with a show "parse p =
      Some ([], p\<lparr>buffer := drop (length (buffer p) - (length (header p) - 1)) (buffer p)\<rparr>)"
    by (simp add: parse_def parse_loop_pass)
next
  assume a: "enabled p \<and> length_cfg p \<le> length (buffer p) \<and> header p \<noteq> [] \<and>
    length (buffer p) \<le> length (header p) \<and> find_bytes (buffer p) (header p) = None"
  with parse_pass_no_header [of p] have "parse_pass p = Break p" by simp
  with a show "parse p = Some ([], p)"
    by (simp add: parse_def parse_loop_pass)
next
  assume "FRAME_LENGTH \<le> length buf \<and> find_bytes buf FRAME_HEADER = None"
  then show "parse_default buf = ([], [])"
    unfolding parse_default_def by (subst parse_default_loop.simps) simp
qed

theorem header_not_found_trimming_witness:
  "parse \<lparr>name = ''p'', header = [0x01, 0x02], tail = [], length_cfg = 3, crc_type = Crc_none,
           enabled = True, buffer = [0x05, 0x06, 0x07]\<rparr> =
     Some ([], \<lparr>name = ''p'', header = [0x01, 0x02], tail = [], length_cfg = 3,
                crc_type = Crc_none, enabled = True, buffer = [0x07]\<rparr>) \<and>
   parse \<lparr>name = ''p'', header = [0x01, 0x02], tail = [], length_cfg = 2, crc_type = Crc_none,
           enabled = True, buffer = [0x03, 0x04]\<rparr> =
     Some ([], \<lparr>name = ''p'', header = [0x01, 0x02], tail = [], length_cfg = 2,
                crc_type = Crc_none, enabled = True, buffer = [0x03, 0x04]\<rparr>) \<and>
   parse_default (replicate 40 0x01) = ([], [])"
proof -
  let ?p = "\<lparr>name = ''p'', header = [0x01, 0x02], tail = [], length_cfg = 3, crc_type = Crc_none,
           enabled = True, buffer = [0x05, 0x06, 0x07]\<rparr>"
  let ?q = "\<lparr>name = ''p'', header = [0x01, 0x02], tail = [], length_cfg = 2, crc_type = Crc_none,
           enabled = True, buffer = [0x03, 0x04]\<rparr>"
  have "FRAME_LENGTH \<le> length (replicate 40 (0x01::byte)) \<and>
        find_bytes (replicate 40 0x01) FRAME_HEADER = None"
    by code_simp
  with header_not_found_trimming [of ?p "replicate 40 0x01"]
  have c: "parse_default (replicate 40 0x01) = ([], [])" by blast
  have "find_bytes (buffer ?p) (header ?p) = None" by code_simp
  with header_not_found_trimming [of ?p "[]"]
  have a: "parse ?p = Some ([], ?p\<lparr>buffer := drop (length (buffer ?p) - (length (header ?p) - 1)) (buffer ?p)\<rparr>)"
    by simp
  have "find_bytes (buffer ?q) (header ?q) = None" by code_simp
  with header_not_found_trimming [of ?q "[]"]
  have b: "parse ?q = Some ([], ?q)" by simp
  from a b c show ?thesis by simp
qed

theorem header_not_found_counterexample:
  "length_cfg \<lparr>name = ''p'', header = [0x01, 0x02], tail = [], length_cfg = 2,
      crc_type = Crc_none, enabled = True, buffer = [0x03, 0x04]\<rparr> \<le> length [0x03, 0x04 :: byte] \<and>
   find_bytes [0x03, 0x04] [0x01, 0x02] = None \<and>
   parse \<lparr>name = ''p'', header = [0x01, 0x02], tail = [], length_cfg = 2, crc_type = Crc_none,
           enabled = True, buffer = [0x03, 0x04]\<rparr> =
     Some ([], \<lparr>name = ''p'', header = [0x01, 0x02], tail = [], length_cfg = 2,
                crc_type = Crc_none, enabled = True, buffer = [0x03, 0x04]\<rparr>) \<and>
   [0x03, 0x04] \<noteq> drop (length [0x03, 0x04 :: byte] - (length [0x01, 0x02 :: byte] - 1)) [0x03, 0x04 :: byte]"
  by code_simp

lemma valid_frame_lengths:
  assumes "valid_frame p f"
  shows "length (header p) \<le> length_cfg p" and "length (tail p) \<le> length_cfg p"
proof -
  from assms have l: "length f = length_cfg p" and h: "take (length (header p)) f = header p"
    and t: "drop (length f - length (tail p)) f = tail p"
    by (auto simp: valid_frame_def)
  from take_eq_length [OF h] l show "length (header p) \<le> length_cfg p" by simp
  show "length (tail p) \<le> length_cfg p"
  proof (rule ccontr)
    assume "\<not> length (tail p) \<le> length_cfg p"
    with l t have "f = tail p" by simp
    with l \<open>\<not> length (tail p) \<le> length_cfg p\<close> show False by simp
  qed
qed

lemma valid_frame_buffer: "valid_frame (p\<lparr>buffer := b\<rparr>) f = valid_frame p f"
  by (simp add: valid_frame_def)

lemma parse_pass_valid:
  assumes v: "valid_frame p f" and pos: "0 < length_cfg p"
    and loc: "if header p = [] then i = 0 else find_bytes (buffer p) (header p) = Some i"
    and buf: "drop i (buffer p) = f @ rest"
  shows "parse_pass p = Emit \<lparr>protocol_name = name p, raw_frame = f\<rparr> (p\<lparr>buffer := rest\<rparr>)"
proof -
  from v have l: "length f = length_cfg p"
    and t: "drop (length f - length (tail p)) f = tail p"
    and c: "verify_crc (crc_type p) f"
    by (auto simp: valid_frame_def)
  have "length (drop i (buffer p)) \<ge> length_cfg p"
    using buf l by simp
  then have long: "length_cfg p \<le> length (buffer p)" by simp
  have tk: "take (length_cfg p) (drop i (buffer p)) = f"
    and dr: "drop (length_cfg p) (drop i (buffer p)) = rest"
    using buf l by simp_all
  show ?thesis
    using l t c
    unfolding parse_pass_located [OF long loc] Let_def tk dr
    by (simp add: buf)
qed

lemma find_bytes_front:
  assumes "take (length sub) f = sub"
  shows "find_bytes (f @ rest) sub = Some 0"
proof -
  from take_eq_length [OF assms] have "length sub \<le> length f" .
  with assms have "take (length sub) (f @ rest) = sub" by simp
  then show ?thesis by (rule find_bytes_prefix)
qed

lemma parse_pass_valid_front:
  assumes v: "valid_frame p f" and pos: "0 < length_cfg p" and buf: "buffer p = f @ rest"
  shows "parse_pass p = Emit \<lparr>protocol_name = name p, raw_frame = f\<rparr> (p\<lparr>buffer := rest\<rparr>)"
proof (rule parse_pass_valid [OF v pos, where i = 0])
  from v have "take (length (header p)) f = header p" by (auto simp: valid_frame_def)
  from find_bytes_front [OF this, of rest] buf
  show "if header p = [] then (0::nat) = 0 else find_bytes (buffer p) (header p) = Some 0"
    by simp
  from buf show "drop 0 (buffer p) = f @ rest" by simp
qed

lemma parse_pass_bad_front:
  assumes len: "length bad = length_cfg p" and hd: "take (length (header p)) bad = header p"
    and bad: "\<not> verify_crc (crc_type p) bad" and buf: "buffer p = bad @ rest"
  shows "parse_pass p = Skip (p\<lparr>buffer := drop (max 1 (length (header p))) (bad @ rest)\<rparr>)"
proof -
  have long: "length_cfg p \<le> length (buffer p)" using buf len by simp
  have loc: "if header p = [] then (0::nat) = 0 else find_bytes (buffer p) (header p) = Some 0"
    using find_bytes_front [OF hd, of rest] buf by simp
  have tk: "take (length_cfg p) (buffer p) = bad" using buf len by simp
  show ?thesis
    using bad len
    unfolding parse_pass_located [OF long loc] Let_def drop_0 tk
    by (simp add: buf)
qed

lemma parse_loop_short:
  "length (buffer p) < length_cfg p \<Longrightarrow> parse_loop p rs = Some (rs, p)"
  by (subst parse_loop.simps) simp

lemma add_data_small:
  "length (buffer p @ data) \<le> 10240 \<Longrightarrow> add_data p data = p\<lparr>buffer := buffer p @ data\<rparr>"
  by (simp add: add_data_def Let_def)

text \<open>
  C2 (amended). Resynchronization after corruption: for an enabled synchronizer with an
  empty buffer and a non-empty header, feeding the concatenation of a valid frame, a frame
  of the frame length that begins with the header and fails the checksum check, and
  another valid frame emits exactly the first and the third frame, in input order,
  provided that, once max(1, header_length) bytes of the corrupted frame are dropped,
  the next occurrence of the header in the remaining input is the start of the third
  frame (and the three frames fit into the buffer cap). After a checksum mismatch on the
  candidate at the front of the buffer exactly max(1, header_length) bytes are dropped and
  the loop goes on with the rest, without new input.
\<close>

theorem resync_after_corruption:
  "(enabled p \<and> buffer p = [] \<and> 0 < length_cfg p \<and> 3 * length_cfg p \<le> 10240 \<and>
    valid_frame p f1 \<and> valid_frame p f2 \<and>
    length bad = length_cfg p \<and> take (length (header p)) bad = header p \<and>
    \<not> verify_crc (crc_type p) bad \<and> header p \<noteq> [] \<and>
    find_bytes (drop (max 1 (length (header p))) (bad @ f2)) (header p) =
      Some (length_cfg p - max 1 (length (header p))) \<longrightarrow>
      feed p (f1 @ bad @ f2) =
        Some ([\<lparr>protocol_name = name p, raw_frame = f1\<rparr>,
               \<lparr>protocol_name = name p, raw_frame = f2\<rparr>], p)) \<and>
   (length bad = length_cfg p \<and> take (length (header p)) bad = header p \<and>
    \<not> verify_crc (crc_type p) bad \<and> buffer p = bad @ rest \<longrightarrow>
      parse_loop p rs =
        parse_loop (p\<lparr>buffer := drop (max 1 (length (header p))) (buffer p)\<rparr>) rs)"
proof (intro conjI impI)
  assume a: "length bad = length_cfg p \<and> take (length (header p)) bad = header p \<and>
    \<not> verify_crc (crc_type p) bad \<and> buffer p = bad @ rest"
  then have "parse_pass p = Skip (p\<lparr>buffer := drop (max 1 (length (header p))) (bad @ rest)\<rparr>)"
    by (intro parse_pass_bad_front) auto
  with a show "parse_loop p rs =
        parse_loop (p\<lparr>buffer := drop (max 1 (length (header p))) (buffer p)\<rparr>) rs"
    by (subst parse_loop_pass) simp
next
  assume a: "enabled p \<and> buffer p = [] \<and> 0 < length_cfg p \<and> 3 * length_cfg p \<le> 10240 \<and>
    valid_frame p f1 \<and> valid_frame p f2 \<and>
    length bad = length_cfg p \<and> take (length (header p)) bad = header p \<and>
    \<not> verify_crc (crc_type p) bad \<and> header p \<noteq> [] \<and>
    find_bytes (drop (max 1 (length (header p))) (bad @ f2)) (header p) =
      Some (length_cfg p - max 1 (length (header p)))"
  let ?L = "length_cfg p" and ?k = "max 1 (length (header p))"
  let ?r1 = "\<lparr>protocol_name = name p, raw_frame = f1\<rparr>"
  let ?r2 = "\<lparr>protocol_name = name p, raw_frame = f2\<rparr>"
  from a have v1: "valid_frame p f1" and v2: "valid_frame p f2" and pos: "0 < ?L"
    and e: "buffer p = []" by auto
  from v1 v2 have l1: "length f1 = ?L" and l2: "length f2 = ?L"
    by (auto simp: valid_frame_def)
  from valid_frame_lengths(1) [OF v1] pos have k: "?k \<le> ?L" by simp
  let ?p1 = "p\<lparr>buffer := f1 @ bad @ f2\<rparr>"
  let ?p2 = "p\<lparr>buffer := bad @ f2\<rparr>"
  define s where "s = drop ?k (bad @ f2)"
  let ?p3 = "p\<lparr>buffer := s\<rparr>"
  let ?p4 = "p\<lparr>buffer := []\<rparr>"
  from a have fnd: "find_bytes s (header p) = Some (?L - ?k)" and hne: "header p \<noteq> []"
    unfolding s_def by blast+
  have s0: "add_data p (f1 @ bad @ f2) = ?p1"
    using a l1 l2 by (subst add_data_small) simp_all
  have s1: "parse_pass ?p1 = Emit ?r1 ?p2"
    using parse_pass_valid_front [of ?p1 f1 "bad @ f2"] v1 pos
    by (simp add: valid_frame_buffer)
  have "parse_pass ?p2 = Skip (p\<lparr>buffer := drop ?k (bad @ f2)\<rparr>)"
    using parse_pass_bad_front [of bad ?p2 f2] a by simp
  then have s2: "parse_pass ?p2 = Skip ?p3"
    by (simp only: s_def)
  have "drop (?L - ?k) s = f2 @ []"
    unfolding s_def using a k by simp
  then have s3: "parse_pass ?p3 = Emit ?r2 ?p4"
    using parse_pass_valid [of ?p3 f2 "?L - ?k" "[]"] v2 pos fnd hne
    by (simp add: valid_frame_buffer)
  have s4: "parse_loop ?p4 [?r1, ?r2] = Some ([?r1, ?r2], ?p4)"
    using pos by (intro parse_loop_short) simp
  have "parse_loop ?p1 [] = Some ([?r1, ?r2], ?p4)"
    using s1 s2 s3 s4
    by (simp add: parse_loop_pass [of ?p1] parse_loop_pass [of ?p2] parse_loop_pass [of ?p3])
  moreover have "?p4 = p" using e by simp
  ultimately show "feed p (f1 @ bad @ f2) = Some ([?r1, ?r2], p)"
    using a s0 by (simp add: feed_def parse_def)
qed

theorem resync_after_corruption_witness:
  "feed \<lparr>name = ''p'', header = [0xA8], tail = [], length_cfg = 3, crc_type = Sum_check,
          enabled = True, buffer = []\<rparr>
        ([0xA8, 0x01, 0xA9] @ [0xA8, 0x05, 0x00] @ [0xA8, 0x02, 0xAA]) =
     Some ([\<lparr>protocol_name = ''p'', raw_frame = [0xA8, 0x01, 0xA9]\<rparr>,
            \<lparr>protocol_name = ''p'', raw_frame = [0xA8, 0x02, 0xAA]\<rparr>],
           \<lparr>name = ''p'', header = [0xA8], tail = [], length_cfg = 3, crc_type = Sum_check,
             enabled = True, buffer = []\<rparr>) \<and>
   parse_loop \<lparr>name = ''p'', header = [0xA8], tail = [], length_cfg = 3, crc_type = Sum_check,
          enabled = True, buffer = [0xA8, 0x05, 0x00] @ [0xA8, 0x02, 0xAA]\<rparr> [] =
   parse_loop \<lparr>name = ''p'', header = [0xA8], tail = [], length_cfg = 3, crc_type = Sum_check,
          enabled = True, buffer = [0x05, 0x00, 0xA8, 0x02, 0xAA]\<rparr> []"
proof -
  let ?p = "\<lparr>name = ''p'', header = [0xA8], tail = [], length_cfg = 3, crc_type = Sum_check,
          enabled = True, buffer = []\<rparr>"
  let ?q = "\<lparr>name = ''p'', header = [0xA8], tail = [], length_cfg = 3, crc_type = Sum_check,
          enabled = True, buffer = [0xA8, 0x05, 0x00] @ [0xA8, 0x02, 0xAA]\<rparr>"
  let ?f1 = "[0xA8, 0x01, 0xA9] :: byte list"
  let ?bad = "[0xA8, 0x05, 0x00] :: byte list"
  let ?f2 = "[0xA8, 0x02, 0xAA] :: byte list"
  have h1: "enabled ?p \<and> buffer ?p = [] \<and> 0 < length_cfg ?p \<and> 3 * length_cfg ?p \<le> 10240 \<and>
    valid_frame ?p ?f1 \<and> valid_frame ?p ?f2 \<and>
    length ?bad = length_cfg ?p \<and> take (length (header ?p)) ?bad = header ?p \<and>
    \<not> verify_crc (crc_type ?p) ?bad \<and> header ?p \<noteq> [] \<and>
    find_bytes (drop (max 1 (length (header ?p))) (?bad @ ?f2)) (header ?p) =
      Some (length_cfg ?p - max 1 (length (header ?p)))"
    by code_simp
  have h2: "length ?bad = length_cfg ?q \<and> take (length (header ?q)) ?bad = header ?q \<and>
    \<not> verify_crc (crc_type ?q) ?bad \<and> buffer ?q = ?bad @ ?f2"
    by code_simp
  from resync_after_corruption [of ?p ?f1 ?f2 ?bad ?f2 "[]"] h1
  have a: "feed ?p (?f1 @ ?bad @ ?f2) =
        Some ([\<lparr>protocol_name = name ?p, raw_frame = ?f1\<rparr>,
               \<lparr>protocol_name = name ?p, raw_frame = ?f2\<rparr>], ?p)"
    by blast
  from resync_after_corruption [of ?q ?f1 ?f2 ?bad ?f2 "[]"] h2
  have b: "parse_loop ?q [] =
        parse_loop (?q\<lparr>buffer := drop (max 1 (length (header ?q))) (buffer ?q)\<rparr>) []"
    by blast
  from a b show ?thesis by simp
qed

theorem resync_after_corruption_counterexample:
  "valid_frame \<lparr>name = ''p'', header = [0xA8], tail = [], length_cfg = 3, crc_type = Sum_check,
          enabled = True, buffer = []\<rparr> [0xA8, 0x01, 0xA9] \<and>
   valid_frame \<lparr>name = ''p'', header = [0xA8], tail = [], length_cfg = 3, crc_type = Sum_check,
          enabled = True, buffer = []\<rparr> [0xA8, 0x02, 0xAA] \<and>
   take 1 [0xA8, 0xA8, 0x00 :: byte] = [0xA8] \<and>
   \<not> verify_crc Sum_check [0xA8, 0xA8, 0x00] \<and>
   feed \<lparr>name = ''p'', header = [0xA8], tail = [], length_cfg = 3, crc_type = Sum_check,
          enabled = True, buffer = []\<rparr>
        ([0xA8, 0x01, 0xA9] @ [0xA8, 0xA8, 0x00] @ [0xA8, 0x02, 0xAA]) =
     Some ([\<lparr>protocol_name = ''p'', raw_frame = [0xA8, 0x01, 0xA9]\<rparr>,
            \<lparr>protocol_name = ''p'', raw_frame = [0xA8, 0x00, 0xA8]\<rparr>],
           \<lparr>name = ''p'', header = [0xA8], tail = [], length_cfg = 3, crc_type = Sum_check,
             enabled = True, buffer = [0x02, 0xAA]\<rparr>)"
  by code_simp

lemma feed_disabled: "\<not> enabled p \<Longrightarrow> feed p c = Some ([], add_data p c)"
  by (simp add: feed_def parse_def add_data_def Let_def)

lemma add_data_config:
  "\<exists>b. add_data p c = p\<lparr>buffer := b\<rparr> \<and> length b \<le> 10240"
  by (auto simp: add_data_def Let_def slice_from_def)

lemma feed_chunks_disabled:
  "\<not> enabled p \<Longrightarrow> map_option fst (feed_chunks p cs) = Some []"
proof (induction cs arbitrary: p)
  case Nil
  show ?case by simp
next
  case (Cons c cs)
  from add_data_config [of p c] obtain b where b: "add_data p c = p\<lparr>buffer := b\<rparr>" by blast
  with Cons.prems have "\<not> enabled (add_data p c)" by simp
  from Cons.IH [OF this] feed_disabled [OF Cons.prems, of c] show ?case
    by (auto split: option.splits)
qed

lemma feed_oversized:
  assumes "10240 < length_cfg p"
  shows "feed p c = Some ([], add_data p c)"
proof -
  from add_data_config [of p c] obtain b where b: "add_data p c = p\<lparr>buffer := b\<rparr>"
    and l: "length b \<le> 10240" by blast
  with assms have "length (buffer (add_data p c)) < length_cfg (add_data p c)" by simp
  from parse_loop_short [OF this] show ?thesis
    by (simp add: feed_def parse_def)
qed

lemma feed_chunks_oversized:
  "10240 < length_cfg p \<Longrightarrow> map_option fst (feed_chunks p cs) = Some []"
proof (induction cs arbitrary: p)
  case Nil
  show ?case by simp
next
  case (Cons c cs)
  from add_data_config [of p c] obtain b where b: "add_data p c = p\<lparr>buffer := b\<rparr>" by blast
  with Cons.prems have "10240 < length_cfg (add_data p c)" by simp
  from Cons.IH [OF this] feed_oversized [OF Cons.prems, of c] show ?case
    by (auto split: option.splits)
qed

lemma feed_chunks_idle:
  assumes "length (buffer p) < length_cfg p" and "length (buffer p) \<le> 10240"
    and "concat cs = []"
  shows "feed_chunks p cs = Some ([], p)"
  using assms
proof (induction cs)
  case Nil
  show ?case by simp
next
  case (Cons c cs)
  then have c: "c = []" and cs: "concat cs = []" by simp_all
  from Cons.prems have "add_data p [] = p" by (simp add: add_data_small)
  with Cons.prems have "feed p c = Some ([], p)"
    by (simp add: c feed_def parse_def parse_loop_short)
  with Cons.IH [OF Cons.prems(1,2) cs] show ?case by simp
qed

lemma feed_chunks_assemble:
  assumes "enabled p" and "0 < length_cfg p" and "length_cfg p \<le> 10240"
    and "valid_frame p f" and "buffer p @ concat cs = f" and "length (buffer p) < length_cfg p"
  shows "feed_chunks p cs =
         Some ([\<lparr>protocol_name = name p, raw_frame = f\<rparr>], p\<lparr>buffer := []\<rparr>)"
  using assms
proof (induction cs arbitrary: p)
  case Nil
  then show ?case by (auto simp: valid_frame_def)
next
  case (Cons c cs)
  let ?q = "p\<lparr>buffer := buffer p @ c\<rparr>"
  from Cons.prems have lf: "length f = length_cfg p" by (auto simp: valid_frame_def)
  from Cons.prems(5) have app: "(buffer p @ c) @ concat cs = f" by simp
  from arg_cong [OF app, of length]
  have lsum: "length (buffer p @ c) + length (concat cs) = length f" by simp
  from lsum lf have le: "length (buffer p @ c) \<le> length_cfg p" by linarith
  with Cons.prems have ad: "add_data p c = ?q" by (intro add_data_small) simp
  show ?case
  proof (cases "length (buffer p @ c) < length_cfg p")
    case True
    then have "feed p c = Some ([], ?q)"
      using Cons.prems(1) by (simp add: feed_def ad parse_def parse_loop_short)
    moreover have "feed_chunks ?q cs =
         Some ([\<lparr>protocol_name = name ?q, raw_frame = f\<rparr>], ?q\<lparr>buffer := []\<rparr>)"
      using Cons.prems True by (intro Cons.IH) (simp_all add: valid_frame_buffer)
    ultimately show ?thesis by simp
  next
    case False
    with le have eq: "length (buffer p @ c) = length f" using lf by simp
    from lsum eq have "length (concat cs) = 0" by linarith
    then have rest: "concat cs = []" by (simp only: length_0_conv)
    with app have bf: "buffer p @ c = f" by simp
    let ?r = "\<lparr>protocol_name = name p, raw_frame = f\<rparr>"
    let ?e = "p\<lparr>buffer := []\<rparr>"
    have "parse_pass ?q = Emit ?r ?e"
      using parse_pass_valid_front [of ?q f "[]"] Cons.prems bf
      by (simp add: valid_frame_buffer)
    moreover have "parse_loop ?e [?r] = Some ([?r], ?e)"
      using Cons.prems by (intro parse_loop_short) simp
    ultimately have "parse_loop ?q [] = Some ([?r], ?e)"
      by (simp add: parse_loop_pass [of ?q])
    then have "feed p c = Some ([?r], ?e)"
      using Cons.prems(1) by (simp add: feed_def ad parse_def)
    moreover have "feed_chunks ?e cs = Some ([], ?e)"
      using Cons.prems rest by (intro feed_chunks_idle) simp_all
    ultimately show ?thesis by simp
  qed
qed

text \<open>
  C1. Chunking invariance: for a synchronizer with an empty buffer and a positive frame
  length, and a valid frame of its protocol, feeding the frame split into arbitrary
  consecutive chunks (\<open>add_data\<close> then \<open>parse\<close> for each chunk) emits what feeding the
  whole frame in one call emits; for an enabled synchronizer whose frame length is within
  the buffer cap that is exactly the one frame, with the same bytes.
\<close>

theorem chunking_invariance:
  "buffer p = [] \<and> 0 < length_cfg p \<and> valid_frame p f \<and> concat chunks = f \<longrightarrow>
     map_option fst (feed_chunks p chunks) = map_option fst (feed_chunks p [f]) \<and>
     (enabled p \<and> length_cfg p \<le> 10240 \<longrightarrow>
        map_option fst (feed_chunks p chunks) = Some [\<lparr>protocol_name = name p, raw_frame = f\<rparr>])"
proof
  assume a: "buffer p = [] \<and> 0 < length_cfg p \<and> valid_frame p f \<and> concat chunks = f"
  have whole: "concat [f] = f" by simp
  show "map_option fst (feed_chunks p chunks) = map_option fst (feed_chunks p [f]) \<and>
     (enabled p \<and> length_cfg p \<le> 10240 \<longrightarrow>
        map_option fst (feed_chunks p chunks) = Some [\<lparr>protocol_name = name p, raw_frame = f\<rparr>])"
  proof (cases "enabled p \<and> length_cfg p \<le> 10240")
    case True
    have "feed_chunks p cs =
         Some ([\<lparr>protocol_name = name p, raw_frame = f\<rparr>], p\<lparr>buffer := []\<rparr>)"
      if "concat cs = f" for cs
      using a True that by (intro feed_chunks_assemble) simp_all
    from this [of chunks] this [of "[f]"] a
    have c1: "feed_chunks p chunks =
         Some ([\<lparr>protocol_name = name p, raw_frame = f\<rparr>], p\<lparr>buffer := []\<rparr>)"
      and c2: "feed_chunks p [f] =
         Some ([\<lparr>protocol_name = name p, raw_frame = f\<rparr>], p\<lparr>buffer := []\<rparr>)"
      by simp_all
    show ?thesis unfolding c1 c2 by simp
  next
    case False
    then have "map_option fst (feed_chunks p cs) = Some []" for cs
      using feed_chunks_disabled [of p cs] feed_chunks_oversized [of p cs] by auto
    from this [of chunks] this [of "[f]"]
    have c1: "map_option fst (feed_chunks p chunks) = Some []"
      and c2: "map_option fst (feed_chunks p [f]) = Some []"
      by blast+
    show ?thesis unfolding c1 c2 using False by blast
  qed
qed

theorem chunking_invariance_witness:
  "map_option fst (feed_chunks \<lparr>name = ''p'', header = [0xA8], tail = [], length_cfg = 3,
       crc_type = Sum_check, enabled = True, buffer = []\<rparr> [[0xA8], [], [0x01, 0xA9]]) =
     Some [\<lparr>protocol_name = ''p'', raw_frame = [0xA8, 0x01, 0xA9]\<rparr>] \<and>
   map_option fst (feed_chunks \<lparr>name = ''p'', header = [0xA8], tail = [], length_cfg = 3,
       crc_type = Sum_check, enabled = True, buffer = []\<rparr> [[0xA8, 0x01, 0xA9]]) =
     Some [\<lparr>protocol_name = ''p'', raw_frame = [0xA8, 0x01, 0xA9]\<rparr>]"
proof -
  let ?p = "\<lparr>name = ''p'', header = [0xA8], tail = [], length_cfg = 3,
       crc_type = Sum_check, enabled = True, buffer = []\<rparr>"
  let ?f = "[0xA8, 0x01, 0xA9] :: byte list"
  have h: "buffer ?p = [] \<and> 0 < length_cfg ?p \<and> valid_frame ?p ?f \<and>
           concat [[0xA8], [], [0x01, 0xA9]] = ?f"
    by code_simp
  have e: "enabled ?p \<and> length_cfg ?p \<le> 10240" by simp
  from chunking_invariance [of ?p ?f "[[0xA8], [], [0x01, 0xA9]]"] h e
  have A: "map_option fst (feed_chunks ?p [[0xA8], [], [0x01, 0xA9]]) =
           map_option fst (feed_chunks ?p [?f])"
    and B: "map_option fst (feed_chunks ?p [[0xA8], [], [0x01, 0xA9]]) =
           Some [\<lparr>protocol_name = name ?p, raw_frame = ?f\<rparr>]"
    by blast+
  have n: "name ?p = ''p''" by simp
  show ?thesis by (simp only: A [symmetric] B n)
qed

section \<open>Time calibration\<close>

lemma and_0x0F_mod: "(k::int) AND 0x0F = k mod 16"
proof -
  have "(0x0F::int) = mask 4"
    by (simp add: mask_eq_exp_minus_1)
  then have "k AND 0x0F = take_bit 4 k"
    by (simp add: take_bit_eq_mask)
  then show ?thesis
    by (simp add: take_bit_eq_mod)
qed

lemma nibbles_or:
  assumes "0 \<le> t" "t < 16" "0 \<le> u" "u < 16"
  shows "push_bit 4 (t::int) OR u = 16 * t + u"
proof -
  have "push_bit 4 t AND u = 0"
  proof (rule bit_eqI)
    fix n
    have "\<not> bit u n" if "4 \<le> n"
    proof -
      from that have "(2::int) ^ 4 \<le> 2 ^ n" by (intro power_increasing) simp_all
      with assms have "u < 2 ^ n" by simp
      with assms show ?thesis by (simp add: bit_iff_odd)
    qed
    then show "bit (push_bit 4 t AND u) n = bit (0::int) n"
      by (auto simp: bit_and_iff bit_push_bit_iff)
  qed
  then have "push_bit 4 t OR u = push_bit 4 t + u"
    by (simp add: disjunctive_add_eq_or)
  then show ?thesis by (simp add: push_bit_eq_mult)
qed

lemma decimal_to_bcd_value:
  "decimal_to_bcd v = 16 * ((v div 10) mod 16) + v mod 10"
proof -
  have "(v mod 10) mod 16 = v mod 10"
    by (intro mod_pos_pos_trivial) (simp, use pos_mod_bound [of 10 v] in linarith)
  then show ?thesis
    unfolding decimal_to_bcd_def Let_def and_0x0F_mod
    by (subst nibbles_or) simp_all
qed

lemma decimal_to_bcd_range: "0 \<le> decimal_to_bcd v \<and> decimal_to_bcd v < 256"
proof -
  have "0 \<le> (v div 10) mod 16" "(v div 10) mod 16 < 16" "0 \<le> v mod 10" "v mod 10 < 10"
    by simp_all
  then show ?thesis unfolding decimal_to_bcd_value by linarith
qed

lemma decimal_to_bcd_spec:
  assumes "0 \<le> v" "v < 100"
  shows "decimal_to_bcd v = spec_bcd v"
proof -
  from assms have d: "0 \<le> v div 10" "v div 10 < 16" by simp_all
  then have "(v div 10) mod 16 = v div 10" by simp
  moreover have "spec_bcd v = 16 * (v div 10) + v mod 10"
    unfolding spec_bcd_def using d by (subst nibbles_or) simp_all
  ultimately show ?thesis by (simp add: decimal_to_bcd_value)
qed

lemma append_bcd:
  "bytearray_append d (decimal_to_bcd v) = Some (d @ [word_of_int (decimal_to_bcd v)])"
  using decimal_to_bcd_range [of v] by (simp add: bytearray_append_def)

lemma xmodem_range: "0 \<le> calculate_crc16_xmodem data \<and> calculate_crc16_xmodem data < 65536"
  unfolding xmodem_is_register
  using uint_lt2p [of "spec_crc16_msb_first 0x1021 0 data"] by simp

lemma crc_bytes:
  assumes "0 \<le> crc" "crc < 65536"
  shows "0 \<le> crc AND 0xFF" "crc AND 0xFF < 256" "0 \<le> drop_bit 8 crc AND 0xFF"
    "drop_bit 8 crc AND 0xFF < 256"
    "uint (word_of_int (crc AND 0xFF) :: byte) +
       256 * uint (word_of_int (drop_bit 8 crc AND 0xFF) :: byte) = crc"
proof -
  have lo: "crc AND 0xFF = crc mod 256" by (rule and_0xFF_mod)
  have "drop_bit 8 crc = crc div 256" by (simp add: drop_bit_eq_div)
  with assms have hi: "drop_bit 8 crc AND 0xFF = crc div 256"
    by (simp add: and_0xFF_mod)
  from assms have h: "0 \<le> crc div 256" "crc div 256 < 256" by simp_all
  show "0 \<le> crc AND 0xFF" "crc AND 0xFF < 256" by (simp_all add: lo)
  show "0 \<le> drop_bit 8 crc AND 0xFF" "drop_bit 8 crc AND 0xFF < 256"
    using h by (simp_all add: hi)
  have "uint (word_of_int (crc mod 256) :: byte) = crc mod 256"
    by (simp add: uint_word_of_int)
  moreover have "uint (word_of_int (crc div 256) :: byte) = crc div 256"
    using h by (simp add: uint_word_of_int)
  ultimately show "uint (word_of_int (crc AND 0xFF) :: byte) +
       256 * uint (word_of_int (drop_bit 8 crc AND 0xFF) :: byte) = crc"
    by (simp add: lo hi)
qed

text \<open>
  C9. Time-calibration command encoding: for every wall-clock time and an open port, the
  command written to the device is exactly 13 bytes: the fixed prefix 06 00 10 24 08, then
  the six BCD bytes of year mod 100, month, day, hour, minute and second, with
  BCD(v) = ((v div 10) << 4) | (v mod 10), then the CRC16-XMODEM of these 11 bytes, low byte
  first and high byte second.
\<close>

theorem time_calibration_encoding:
  "wall_clock now \<longrightarrow>
     (let fields = [year now mod 100, month now, day now, hour now, minute now, second now];
          body = [0x06, 0x00, 0x10, 0x24, 0x08] @ map (\<lambda>v. word_of_int (spec_bcd v)) fields;
          crc = calculate_crc16_xmodem body;
          command = body @ [word_of_int (crc AND 0xFF), word_of_int (drop_bit 8 crc AND 0xFF)]
      in calibrate_time True now = Some command \<and> length command = 13 \<and>
         uint (command ! 11) + 256 * uint (command ! 12) = crc)"
proof
  assume w: "wall_clock now"
  let ?y = "year now mod 100"
  have b: "decimal_to_bcd ?y = spec_bcd ?y" "decimal_to_bcd (month now) = spec_bcd (month now)"
    "decimal_to_bcd (day now) = spec_bcd (day now)" "decimal_to_bcd (hour now) = spec_bcd (hour now)"
    "decimal_to_bcd (minute now) = spec_bcd (minute now)"
    "decimal_to_bcd (second now) = spec_bcd (second now)"
    using w by (simp_all add: wall_clock_def decimal_to_bcd_spec)
  define body :: "byte list" where "body = [0x06, 0x00, 0x10, 0x24, 0x08] @
    map (\<lambda>v. word_of_int (spec_bcd v))
      [?y, month now, day now, hour now, minute now, second now]"
  define crc where "crc = calculate_crc16_xmodem body"
  define command where
    "command = body @ [word_of_int (crc AND 0xFF), word_of_int (drop_bit 8 crc AND 0xFF)]"
  have r: "0 \<le> crc" "crc < 65536"
    using xmodem_range [of body] by (simp_all add: crc_def)
  note cb = crc_bytes [OF r]
  have "calibrate_time True now =
     (let crc = calculate_crc16_xmodem body in
         Option.bind (bytearray_append body (crc AND 0xFF)) (\<lambda>d7.
         bytearray_append d7 (drop_bit 8 crc AND 0xFF)))"
    unfolding calibrate_time_def
    by (simp add: append_bcd b [symmetric] body_def)
  also have "\<dots> = Some command"
    using cb(1-4) by (simp add: Let_def bytearray_append_def crc_def [symmetric] command_def)
  finally have c: "calibrate_time True now = Some command" .
  have l: "length body = 11" by (simp add: body_def)
  then have l2: "length command = 13" by (simp add: command_def)
  from l have "command ! 11 = word_of_int (crc AND 0xFF)"
    "command ! 12 = word_of_int (drop_bit 8 crc AND 0xFF)"
    by (simp_all add: command_def nth_append)
  with cb(5) have e: "uint (command ! 11) + 256 * uint (command ! 12) = crc" by simp
  from c l2 e show "let fields = [year now mod 100, month now, day now, hour now, minute now, second now];
          body = [0x06, 0x00, 0x10, 0x24, 0x08] @ map (\<lambda>v. word_of_int (spec_bcd v)) fields;
          crc = calculate_crc16_xmodem body;
          command = body @ [word_of_int (crc AND 0xFF), word_of_int (drop_bit 8 crc AND 0xFF)]
      in calibrate_time True now = Some command \<and> length command = 13 \<and>
         uint (command ! 11) + 256 * uint (command ! 12) = crc"
    unfolding Let_def command_def crc_def body_def by blast
qed

theorem time_calibration_encoding_witness:
  "wall_clock \<lparr>year = 2024, month = 12, day = 31, hour = 23, minute = 59, second = 58\<rparr> \<and>
   calibrate_time True
     \<lparr>year = 2024, month = 12, day = 31, hour = 23, minute = 59, second = 58\<rparr> =
     Some [0x06, 0x00, 0x10, 0x24, 0x08, 0x24, 0x12, 0x31, 0x23, 0x59, 0x58, 0xC3, 0xDC]"
proof -
  let ?now = "\<lparr>year = 2024, month = 12, day = 31, hour = 23, minute = 59, second = 58\<rparr>"
  let ?body = "[0x06, 0x00, 0x10, 0x24, 0x08] @ map (\<lambda>v. word_of_int (spec_bcd v))
      [year ?now mod 100, month ?now, day ?now, hour ?now, minute ?now, second ?now] :: byte list"
  let ?crc = "calculate_crc16_xmodem ?body"
  let ?command = "?body @ [word_of_int (?crc AND 0xFF), word_of_int (drop_bit 8 ?crc AND 0xFF)]"
  have w: "wall_clock ?now" by (simp add: wall_clock_def)
  have ev: "?command =
      [0x06, 0x00, 0x10, 0x24, 0x08, 0x24, 0x12, 0x31, 0x23, 0x59, 0x58, 0xC3, 0xDC]"
    by code_simp
  from time_calibration_encoding [of ?now] w
  have "calibrate_time True ?now = Some ?command"
    unfolding Let_def by blast
  with w ev show ?thesis by (simp only:)
qed

section \<open>The dispatcher\<close>

lemma use_default_parser_iff:
  "use_default_parser cfgs \<longleftrightarrow> \<not> (\<exists>c \<in> set cfgs. enabled c \<and> header c = [0xA8, 0xA8])"
  by (induction cfgs) auto

lemma run_protocol_parsers_None:
  "run_protocol_parsers ps data = None \<longleftrightarrow> (\<exists>p \<in> set ps. feed p data = None)"
  by (induction ps) (auto simp: feed_def split: option.splits)

lemma run_protocol_parsers_Some:
  assumes "run_protocol_parsers ps data = Some (rs, ps1)"
  shows "rs = concat (map (\<lambda>p. fst (the (feed p data))) ps) \<and>
         ps1 = map (\<lambda>p. snd (the (feed p data))) ps"
  using assms
proof (induction ps arbitrary: rs ps1)
  case Nil
  then show ?case by simp
next
  case (Cons p ps)
  from Cons.prems obtain r1 p1 rs' ps' where
    f: "feed p data = Some (r1, p1)" and r: "run_protocol_parsers ps data = Some (rs', ps')"
    and e: "rs = r1 @ rs'" "ps1 = p1 # ps'"
    by (auto simp: feed_def split: option.splits)
  from Cons.IH [OF r] f e show ?case by simp
qed

lemma feed_names:
  assumes "feed p data = Some (rs, p1)"
  shows "map (\<lambda>r. (Some (protocol_name r), raw_frame r)) rs =
         map (\<lambda>r. (Some (name p), raw_frame r)) rs"
proof -
  from add_data_config [of p data] obtain b where b: "add_data p data = p\<lparr>buffer := b\<rparr>"
    by blast
  from assms have "parse (add_data p data) = Some (rs, p1)" by (simp add: feed_def)
  from parse_frames [OF this] have "\<forall>r \<in> set rs. protocol_name r = name p"
    by (simp add: frame_ok_def b)
  then show ?thesis by simp
qed

text \<open>
  C5. Dispatcher conflict rule: on a received chunk the default synchronizer is fed and
  parsed if and only if no enabled custom protocol's header equals A8 A8 (a disabled
  protocol with that header does not suppress it), and is left untouched otherwise;
  independently every custom synchronizer, one per enabled protocol, is fed the chunk and
  parsed, and each frame it emits is dispatched with that synchronizer's protocol name,
  after the frames of the default synchronizer.
\<close>

theorem dispatcher_conflict_rule:
  "(use_default_parser (protocol_configs m) \<longleftrightarrow>
      \<not> (\<exists>c \<in> set (protocol_configs m). enabled c \<and> header c = [0xA8, 0xA8])) \<and>
   protocol_parsers (init_protocol_parsers m) =
      map GenericProtocolParser (filter enabled (protocol_configs m)) \<and>
   (on_data_received m data = None \<longleftrightarrow> (\<exists>p \<in> set (protocol_parsers m). feed p data = None)) \<and>
   (on_data_received m data = Some (out, m1) \<longrightarrow>
      parser m1 =
        (if use_default_parser (protocol_configs m)
         then snd (parse_default (add_data_default (parser m) data)) else parser m) \<and>
      protocol_parsers m1 = map (\<lambda>p. snd (the (feed p data))) (protocol_parsers m) \<and>
      protocol_configs m1 = protocol_configs m \<and>
      out =
        (if use_default_parser (protocol_configs m)
         then map (\<lambda>r. (None, default_raw_frame r))
                (fst (parse_default (add_data_default (parser m) data)))
         else []) @
        concat (map (\<lambda>p. map (\<lambda>r. (Some (name p), raw_frame r)) (fst (the (feed p data))))
                  (protocol_parsers m)))"
proof (intro conjI impI)
  show "use_default_parser (protocol_configs m) \<longleftrightarrow>
      \<not> (\<exists>c \<in> set (protocol_configs m). enabled c \<and> header c = [0xA8, 0xA8])"
    by (rule use_default_parser_iff)
  show "protocol_parsers (init_protocol_parsers m) =
      map GenericProtocolParser (filter enabled (protocol_configs m))"
    by (simp add: init_protocol_parsers_def)
  show "on_data_received m data = None \<longleftrightarrow> (\<exists>p \<in> set (protocol_parsers m). feed p data = None)"
    using run_protocol_parsers_None [of "protocol_parsers m" data]
    by (auto simp: on_data_received_def Let_def split: prod.splits option.splits)
next
  assume a: "on_data_received m data = Some (out, m1)"
  then obtain rs ps1 where r: "run_protocol_parsers (protocol_parsers m) data = Some (rs, ps1)"
    by (auto simp: on_data_received_def Let_def split: prod.splits option.splits if_splits)
  note c = run_protocol_parsers_Some [OF r]
  from a r show "parser m1 =
        (if use_default_parser (protocol_configs m)
         then snd (parse_default (add_data_default (parser m) data)) else parser m)"
    by (auto simp: on_data_received_def Let_def split: prod.splits if_splits)
  from a r c show "protocol_parsers m1 = map (\<lambda>p. snd (the (feed p data))) (protocol_parsers m)"
    by (auto simp: on_data_received_def Let_def split: prod.splits if_splits)
  from a r show "protocol_configs m1 = protocol_configs m"
    by (auto simp: on_data_received_def Let_def split: prod.splits if_splits)
  have some: "\<forall>p \<in> set (protocol_parsers m). feed p data \<noteq> None"
    using r run_protocol_parsers_None [of "protocol_parsers m" data] by auto
  have tag: "map (\<lambda>r. (Some (protocol_name r), raw_frame r)) (fst (the (feed p data))) =
             map (\<lambda>r. (Some (name p), raw_frame r)) (fst (the (feed p data)))"
    if "p \<in> set (protocol_parsers m)" for p
  proof -
    from some that obtain x y where "feed p data = Some (x, y)" by fastforce
    from feed_names [OF this] this show ?thesis by simp
  qed
  have "map (\<lambda>r. (Some (protocol_name r), raw_frame r)) rs =
        concat (map (\<lambda>p. map (\<lambda>r. (Some (protocol_name r), raw_frame r)) (fst (the (feed p data))))
                  (protocol_parsers m))"
    using c by (simp add: map_concat comp_def)
  also have "\<dots> = concat (map (\<lambda>p. map (\<lambda>r. (Some (name p), raw_frame r)) (fst (the (feed p data))))
                  (protocol_parsers m))"
    using tag by (intro arg_cong [where f = concat] map_cong) simp_all
  finally have t: "map (\<lambda>r. (Some (protocol_name r), raw_frame r)) rs =
     concat (map (\<lambda>p. map (\<lambda>r. (Some (name p), raw_frame r)) (fst (the (feed p data))))
                  (protocol_parsers m))" .
  from a r have "out =
        (if use_default_parser (protocol_configs m)
         then map (\<lambda>r. (None, default_raw_frame r))
                (fst (parse_default (add_data_default (parser m) data)))
         else []) @ map (\<lambda>r. (Some (protocol_name r), raw_frame r)) rs"
    by (auto simp: on_data_received_def Let_def split: prod.splits if_splits)
  with t show "out =
        (if use_default_parser (protocol_configs m)
         then map (\<lambda>r. (None, default_raw_frame r))
                (fst (parse_default (add_data_default (parser m) data)))
         else []) @
        concat (map (\<lambda>p. map (\<lambda>r. (Some (name p), raw_frame r)) (fst (the (feed p data))))
                  (protocol_parsers m))"
    by (simp only:)
qed

theorem dispatcher_conflict_rule_witness:
  "\<not> use_default_parser
       [\<lparr>name = ''a'', header = [0xA8, 0xA8], tail = [], length_cfg = 3, crc_type = Crc_none,
         enabled = True\<rparr>] \<and>
   on_data_received
     \<lparr>protocol_configs =
        [\<lparr>name = ''a'', header = [0xA8, 0xA8], tail = [], length_cfg = 3, crc_type = Crc_none,
          enabled = True\<rparr>],
      parser = [],
      protocol_parsers =
        [\<lparr>name = ''a'', header = [0xA8, 0xA8], tail = [], length_cfg = 3, crc_type = Crc_none,
          enabled = True, buffer = []\<rparr>]\<rparr>
     [0xA8, 0xA8, 0x01] =
   Some ([(Some ''a'', [0xA8, 0xA8, 0x01])],
     \<lparr>protocol_configs =
        [\<lparr>name = ''a'', header = [0xA8, 0xA8], tail = [], length_cfg = 3, crc_type = Crc_none,
          enabled = True\<rparr>],
      parser = [],
      protocol_parsers =
        [\<lparr>name = ''a'', header = [0xA8, 0xA8], tail = [], length_cfg = 3, crc_type = Crc_none,
          enabled = True, buffer = []\<rparr>]\<rparr>) \<and>
   use_default_parser
       [\<lparr>name = ''a'', header = [0xA8, 0xA8], tail = [], length_cfg = 3, crc_type = Crc_none,
         enabled = False\<rparr>] \<and>
   on_data_received
     \<lparr>protocol_configs =
        [\<lparr>name = ''a'', header = [0xA8, 0xA8], tail = [], length_cfg = 3, crc_type = Crc_none,
          enabled = False\<rparr>],
      parser = [0xA8],
      protocol_parsers = []\<rparr>
     ([0xA8] @ replicate 34 0x01 @ [0xAA, 0xAA]) =
   Some ([(None, [0xA8, 0xA8] @ replicate 34 0x01 @ [0xAA, 0xAA])],
     \<lparr>protocol_configs =
        [\<lparr>name = ''a'', header = [0xA8, 0xA8], tail = [], length_cfg = 3, crc_type = Crc_none,
          enabled = False\<rparr>],
      parser = [],
      protocol_parsers = []\<rparr>) \<and>
   map (\<lambda>p. snd (the (feed p [0xA8, 0xA8, 0x01])))
     [\<lparr>name = ''a'', header = [0xA8, 0xA8], tail = [], length_cfg = 3, crc_type = Crc_none,
       enabled = True, buffer = []\<rparr>] =
     [\<lparr>name = ''a'', header = [0xA8, 0xA8], tail = [], length_cfg = 3, crc_type = Crc_none,
       enabled = True, buffer = []\<rparr>]"
proof -
  let ?c = "\<lparr>name = ''a'', header = [0xA8, 0xA8], tail = [], length_cfg = 3, crc_type = Crc_none,
         enabled = True\<rparr>"
  let ?d = "\<lparr>name = ''a'', header = [0xA8, 0xA8], tail = [], length_cfg = 3, crc_type = Crc_none,
         enabled = False\<rparr>"
  let ?p = "\<lparr>name = ''a'', header = [0xA8, 0xA8], tail = [], length_cfg = 3, crc_type = Crc_none,
          enabled = True, buffer = []\<rparr>"
  let ?ma = "\<lparr>protocol_configs = [?c], parser = [], protocol_parsers = [?p]\<rparr>"
  let ?mb = "\<lparr>protocol_configs = [?d], parser = [0xA8], protocol_parsers = []\<rparr>"
  let ?fa = "[0xA8, 0xA8, 0x01] :: byte list"
  let ?fb = "[0xA8] @ replicate 34 0x01 @ [0xAA, 0xAA] :: byte list"
  have "\<exists>c \<in> set (protocol_configs ?ma). enabled c \<and> header c = [0xA8, 0xA8]" by simp
  with dispatcher_conflict_rule [of ?ma ?fa]
  have a: "\<not> use_default_parser [?c]" by simp
  have "\<not> (\<exists>c \<in> set (protocol_configs ?mb). enabled c \<and> header c = [0xA8, 0xA8])" by simp
  with dispatcher_conflict_rule [of ?mb ?fb]
  have b: "use_default_parser [?d]" by simp
  have c: "on_data_received ?ma ?fa =
      Some ([(Some ''a'', ?fa)], ?ma)"
    by code_simp
  have d: "on_data_received ?mb ?fb =
      Some ([(None, [0xA8, 0xA8] @ replicate 34 0x01 @ [0xAA, 0xAA])],
        \<lparr>protocol_configs = [?d], parser = [], protocol_parsers = []\<rparr>)"
    by code_simp
  from dispatcher_conflict_rule [of ?ma ?fa "[(Some ''a'', ?fa)]" ?ma] c
  have e: "map (\<lambda>p. snd (the (feed p ?fa))) [?p] = [?p]" by simp
  from a b c d e show ?thesis by blast
qed

section \<open>Field extraction\<close>

lemma unpack_uint_raw:
  "length bs = n \<Longrightarrow> unpack_uint e n bs = Some (raw_value False e bs)"
  by (simp add: unpack_uint_def raw_value_def)

lemma unpack_sint_raw:
  "length bs = n \<Longrightarrow> unpack_sint e n bs = Some (raw_value True e bs)"
  by (simp add: unpack_sint_def unpack_uint_def raw_value_def Let_def)

lemma unpack_short:
  "length bs < n \<Longrightarrow> unpack_uint e n bs = None"
  "length bs < n \<Longrightarrow> unpack_sint e n bs = None"
  by (simp_all add: unpack_uint_def unpack_sint_def)

lemma first_byte_raw:
  "1 \<le> length bs \<Longrightarrow>
   (case bs of [] \<Rightarrow> None | b # x \<Rightarrow> Some (f (uint b))) = Some (f (raw_value False LE (take 1 bs)))"
  by (cases bs) (simp_all add: raw_value_def)

lemma first_byte_short:
  "length bs < 1 \<Longrightarrow> (case bs of [] \<Rightarrow> None | b # x \<Rightarrow> Some (f (uint b))) = None"
  by (cases bs) simp_all

lemma take_full: "n \<le> length bs \<Longrightarrow> length (take n bs) = n"
  by simp

lemma take_short: "length bs < n \<Longrightarrow> length (take n bs) < n"
  by simp

lemma decode_value_int_table:
  "\<forall>(dtype, n, sg, e) \<in> set int_types. \<forall>data_bytes. n \<le> length data_bytes \<longrightarrow>
     decode_value fl dtype data_bytes =
       Some (float_of_int fl (raw_value sg e (take n data_bytes)))"
  unfolding int_types_def
  by (simp add: decode_value_def first_byte_raw unpack_uint_raw unpack_sint_raw)

lemma decode_value_float_table:
  "\<forall>(dtype, n, e) \<in> set float_types. \<forall>data_bytes. n \<le> length data_bytes \<longrightarrow>
     decode_value fl dtype data_bytes =
       Some ((if n = 4 then decode_float fl else decode_double fl) e (take n data_bytes))"
  unfolding float_types_def
  by (simp add: decode_value_def unpack_float_def unpack_double_def)

lemma decode_value_short_int_table:
  "\<forall>(dtype, n, sg, e) \<in> set int_types. \<forall>data_bytes. length data_bytes < n \<longrightarrow>
     decode_value fl dtype data_bytes = None"
  unfolding int_types_def
  by (simp add: decode_value_def first_byte_short unpack_short)

lemma decode_value_short_float_table:
  "\<forall>(dtype, n, e) \<in> set float_types. \<forall>data_bytes. length data_bytes < n \<longrightarrow>
     decode_value fl dtype data_bytes = None"
  unfolding float_types_def
  by (simp add: decode_value_def unpack_float_def unpack_double_def)

lemma decode_value_unknown:
  assumes "dtype \<notin> fst ` set int_types" and "dtype \<notin> fst ` set float_types"
  shows "decode_value fl dtype data_bytes = None"
  using assms by (simp add: decode_value_def int_types_def float_types_def)

text \<open>
  C6 (amended). Field extraction contract: for every frame and descriptor the extraction
  returns either a value or the failure marker \<open>None\<close> (every exception of the source is
  a \<open>None\<close> of the model). It returns the failure marker whenever start + width exceeds
  the frame length and, outside bit-mode, whenever the scalar type is unknown or the width
  is smaller than the size of the type. In bit-mode, within the frame, it returns
  (frame[start] >> bit_index) & 1 with no coefficient, divisor or offset applied. For every
  numeric type whose size is at most the width it decodes the first size bytes at start
  with the declared type and byte order and returns (raw * coefficient / divisor) + offset,
  or the failure marker when the division raises.
\<close>

theorem field_extraction_contract:
  "(start_byte c + byte_count c > length frame \<longrightarrow> parse_value_from_frame fl frame c = None) \<and>
   (bit_mode c \<and> start_byte c + byte_count c \<le> length frame \<and> start_byte c < length frame \<longrightarrow>
      parse_value_from_frame fl frame c =
        Some (float_of_int fl (drop_bit (bit_index c) (uint (frame ! start_byte c)) AND 1))) \<and>
   (\<not> bit_mode c \<and> data_type c \<notin> fst ` set int_types \<and> data_type c \<notin> fst ` set float_types \<longrightarrow>
      parse_value_from_frame fl frame c = None) \<and>
   (\<not> bit_mode c \<and> start_byte c + byte_count c \<le> length frame \<and>
    (data_type c, n, sg, e) \<in> set int_types \<and> n \<le> byte_count c \<longrightarrow>
      parse_value_from_frame fl frame c =
        (case float_truediv fl
                (float_mul fl (float_of_int fl (raw_value sg e (take n (drop (start_byte c) frame))))
                   (coefficient c))
                (divisor c) of
           None \<Rightarrow> None
         | Some q \<Rightarrow> Some (float_add fl q (offset c)))) \<and>
   (\<not> bit_mode c \<and> start_byte c + byte_count c \<le> length frame \<and>
    (data_type c, n, e) \<in> set float_types \<and> n \<le> byte_count c \<longrightarrow>
      parse_value_from_frame fl frame c =
        (case float_truediv fl
                (float_mul fl
                   ((if n = 4 then decode_float fl else decode_double fl) e
                      (take n (drop (start_byte c) frame)))
                   (coefficient c))
                (divisor c) of
           None \<Rightarrow> None
         | Some q \<Rightarrow> Some (float_add fl q (offset c)))) \<and>
   (\<not> bit_mode c \<and>
    ((data_type c, n, sg, e) \<in> set int_types \<or> (data_type c, n, e) \<in> set float_types) \<and>
    byte_count c < n \<longrightarrow>
      parse_value_from_frame fl frame c = None)"
proof (intro conjI impI)
  assume "start_byte c + byte_count c > length frame"
  then show "parse_value_from_frame fl frame c = None"
    by (simp add: parse_value_from_frame_def)
next
  assume "bit_mode c \<and> start_byte c + byte_count c \<le> length frame \<and> start_byte c < length frame"
  then show "parse_value_from_frame fl frame c =
        Some (float_of_int fl (drop_bit (bit_index c) (uint (frame ! start_byte c)) AND 1))"
    by (simp add: parse_value_from_frame_def)
next
  assume "\<not> bit_mode c \<and> data_type c \<notin> fst ` set int_types \<and> data_type c \<notin> fst ` set float_types"
  then show "parse_value_from_frame fl frame c = None"
    by (simp add: parse_value_from_frame_def Let_def decode_value_unknown)
next
  let ?data_bytes = "take (byte_count c) (drop (start_byte c) frame)"
  assume a: "\<not> bit_mode c \<and> start_byte c + byte_count c \<le> length frame \<and>
    (data_type c, n, sg, e) \<in> set int_types \<and> n \<le> byte_count c"
  then have l: "n \<le> length ?data_bytes" by auto
  from a have t: "take n ?data_bytes = take n (drop (start_byte c) frame)"
    by (auto simp: min_def)
  from a decode_value_int_table [of fl] l
  have "decode_value fl (data_type c) ?data_bytes =
        Some (float_of_int fl (raw_value sg e (take n ?data_bytes)))"
    by fast
  with a t show "parse_value_from_frame fl frame c =
        (case float_truediv fl
                (float_mul fl (float_of_int fl (raw_value sg e (take n (drop (start_byte c) frame))))
                   (coefficient c))
                (divisor c) of
           None \<Rightarrow> None
         | Some q \<Rightarrow> Some (float_add fl q (offset c)))"
    by (simp add: parse_value_from_frame_def Let_def)
next
  let ?data_bytes = "take (byte_count c) (drop (start_byte c) frame)"
  assume a: "\<not> bit_mode c \<and> start_byte c + byte_count c \<le> length frame \<and>
    (data_type c, n, e) \<in> set float_types \<and> n \<le> byte_count c"
  then have l: "n \<le> length ?data_bytes" by auto
  from a have t: "take n ?data_bytes = take n (drop (start_byte c) frame)"
    by (auto simp: min_def)
  from a decode_value_float_table [of fl] l
  have "decode_value fl (data_type c) ?data_bytes =
        Some ((if n = 4 then decode_float fl else decode_double fl) e (take n ?data_bytes))"
    by fast
  with a t show "parse_value_from_frame fl frame c =
        (case float_truediv fl
                (float_mul fl
                   ((if n = 4 then decode_float fl else decode_double fl) e
                      (take n (drop (start_byte c) frame)))
                   (coefficient c))
                (divisor c) of
           None \<Rightarrow> None
         | Some q \<Rightarrow> Some (float_add fl q (offset c)))"
    by (simp add: parse_value_from_frame_def Let_def)
next
  let ?data_bytes = "take (byte_count c) (drop (start_byte c) frame)"
  assume a: "\<not> bit_mode c \<and>
    ((data_type c, n, sg, e) \<in> set int_types \<or> (data_type c, n, e) \<in> set float_types) \<and>
    byte_count c < n"
  then have l: "length ?data_bytes < n" by auto
  from a decode_value_short_int_table [of fl] decode_value_short_float_table [of fl] l
  have "decode_value fl (data_type c) ?data_bytes = None"
    by fast
  with a show "parse_value_from_frame fl frame c = None"
    by (simp add: parse_value_from_frame_def Let_def)
qed

theorem field_extraction_contract_witness:
  "parse_value_from_frame exact_ops [0x01, 0x00]
     \<lparr>start_byte = 0, byte_count = 2, data_type = ''uint16 (LE)'', bit_mode = False,
      bit_index = 0, coefficient = 1, divisor = 1, offset = 0\<rparr> = Some 1 \<and>
   parse_value_from_frame exact_ops [0x01, 0x00]
     \<lparr>start_byte = 0, byte_count = 2, data_type = ''uint16 (BE)'', bit_mode = False,
      bit_index = 0, coefficient = 1, divisor = 1, offset = 0\<rparr> = Some 256 \<and>
   parse_value_from_frame exact_ops [0xFF, 0xFF]
     \<lparr>start_byte = 0, byte_count = 2, data_type = ''int16 (LE)'', bit_mode = False,
      bit_index = 0, coefficient = 1, divisor = 1, offset = 0\<rparr> = Some (- 1) \<and>
   parse_value_from_frame exact_ops [0x00, 0x0A, 0x00]
     \<lparr>start_byte = 1, byte_count = 2, data_type = ''uint16 (LE)'', bit_mode = False,
      bit_index = 0, coefficient = 3, divisor = 2, offset = 1\<rparr> = Some 16 \<and>
   parse_value_from_frame exact_ops [0x00, 0x05]
     \<lparr>start_byte = 1, byte_count = 1, data_type = ''uint8'', bit_mode = True,
      bit_index = 2, coefficient = 3, divisor = 2, offset = 1\<rparr> = Some 1 \<and>
   parse_value_from_frame exact_ops [0x00, 0x05]
     \<lparr>start_byte = 1, byte_count = 2, data_type = ''uint16 (LE)'', bit_mode = False,
      bit_index = 0, coefficient = 1, divisor = 1, offset = 0\<rparr> = None \<and>
   parse_value_from_frame exact_ops [0x00, 0x05]
     \<lparr>start_byte = 0, byte_count = 2, data_type = ''string'', bit_mode = False,
      bit_index = 0, coefficient = 1, divisor = 1, offset = 0\<rparr> = None"
proof -
  note t = field_extraction_contract [where fl = exact_ops]
  let ?le = "\<lparr>start_byte = 0, byte_count = 2, data_type = ''uint16 (LE)'', bit_mode = False,
      bit_index = 0, coefficient = 1::rat, divisor = 1, offset = 0\<rparr>"
  let ?be = "\<lparr>start_byte = 0, byte_count = 2, data_type = ''uint16 (BE)'', bit_mode = False,
      bit_index = 0, coefficient = 1::rat, divisor = 1, offset = 0\<rparr>"
  let ?sl = "\<lparr>start_byte = 0, byte_count = 2, data_type = ''int16 (LE)'', bit_mode = False,
      bit_index = 0, coefficient = 1::rat, divisor = 1, offset = 0\<rparr>"
  let ?sc = "\<lparr>start_byte = 1, byte_count = 2, data_type = ''uint16 (LE)'', bit_mode = False,
      bit_index = 0, coefficient = 3::rat, divisor = 2, offset = 1\<rparr>"
  let ?bm = "\<lparr>start_byte = 1, byte_count = 1, data_type = ''uint8'', bit_mode = True,
      bit_index = 2, coefficient = 3::rat, divisor = 2, offset = 1\<rparr>"
  let ?ob = "\<lparr>start_byte = 1, byte_count = 2, data_type = ''uint16 (LE)'', bit_mode = False,
      bit_index = 0, coefficient = 1::rat, divisor = 1, offset = 0\<rparr>"
  let ?un = "\<lparr>start_byte = 0, byte_count = 2, data_type = ''string'', bit_mode = False,
      bit_index = 0, coefficient = 1::rat, divisor = 1, offset = 0\<rparr>"
  have m1: "(''uint16 (LE)'', 2, False, LE) \<in> set int_types"
    and m2: "(''uint16 (BE)'', 2, False, BE) \<in> set int_types"
    and m3: "(''int16 (LE)'', 2, True, LE) \<in> set int_types"
    by (simp_all add: int_types_def)
  from t [where c = ?le and frame = "[0x01, 0x00]" and n = 2 and sg = False and e = LE] m1
  have a: "parse_value_from_frame exact_ops [0x01, 0x00] ?le = Some 1"
    by (simp add: exact_ops_def raw_value_def)
  from t [where c = ?be and frame = "[0x01, 0x00]" and n = 2 and sg = False and e = BE] m2
  have b: "parse_value_from_frame exact_ops [0x01, 0x00] ?be = Some 256"
    by (simp add: exact_ops_def raw_value_def)
  from t [where c = ?sl and frame = "[0xFF, 0xFF]" and n = 2 and sg = True and e = LE] m3
  have c: "parse_value_from_frame exact_ops [0xFF, 0xFF] ?sl = Some (- 1)"
    by (simp add: exact_ops_def raw_value_def)
  from t [where c = ?sc and frame = "[0x00, 0x0A, 0x00]" and n = 2 and sg = False and e = LE] m1
  have d: "parse_value_from_frame exact_ops [0x00, 0x0A, 0x00] ?sc = Some 16"
    by (simp add: exact_ops_def raw_value_def)
  from t [where c = ?bm and frame = "[0x00, 0x05]"]
  have e: "parse_value_from_frame exact_ops [0x00, 0x05] ?bm = Some 1"
    by (simp add: exact_ops_def drop_bit_eq_div)
  from t [where c = ?ob and frame = "[0x00, 0x05]"]
  have f: "parse_value_from_frame exact_ops [0x00, 0x05] ?ob = None"
    by simp
  have "''string'' \<notin> fst ` set int_types" "''string'' \<notin> fst ` set float_types"
    by (simp_all add: int_types_def float_types_def)
  with t [where c = ?un and frame = "[0x00, 0x05]"]
  have g: "parse_value_from_frame exact_ops [0x00, 0x05] ?un = None"
    by simp
  from a b c d e f g show ?thesis by blast
qed

theorem field_extraction_counterexample:
  "start_byte \<lparr>start_byte = 0, byte_count = 1, data_type = ''uint16 (LE)'', bit_mode = False,
        bit_index = 0, coefficient = 1 :: rat, divisor = 1, offset = 0\<rparr> +
     byte_count \<lparr>start_byte = 0, byte_count = 1, data_type = ''uint16 (LE)'', bit_mode = False,
        bit_index = 0, coefficient = 1 :: rat, divisor = 1, offset = 0\<rparr>
     \<le> length [0x01, 0x00 :: byte] \<and>
   ''uint16 (LE)'' \<in> fst ` set int_types \<and>
   parse_value_from_frame exact_ops [0x01, 0x00]
     \<lparr>start_byte = 0, byte_count = 1, data_type = ''uint16 (LE)'', bit_mode = False,
      bit_index = 0, coefficient = 1, divisor = 1, offset = 0\<rparr> = None"
  by code_simp

end
